theory Spec2Isabelle
  imports Main "HOL-Library.Word"
begin

unbundle bit_operations_syntax

section \<open>Machine types and the byte store\<close>

text \<open>
  The simulator is written in C. Its \<open>uint8_t\<close>, \<open>uint32_t\<close> and \<open>uint64_t\<close> values are
  words of that width, so that arithmetic wraps as in C. A pointer into a byte buffer
  (\<open>uint8_t*\<close>) is a byte store together with an offset; the C functions carry no length
  with the pointer and do no bounds check, so the store is total. Multi-byte accesses
  (\<open>*(uint64_t*)p\<close>) use the byte order of the host, taken to be little-endian.
\<close>

type_synonym u8 = "8 word"
type_synonym u32 = "32 word"
type_synonym u64 = "64 word"
type_synonym memory = "u64 \<Rightarrow> u8"

definition load_u64 :: "memory \<Rightarrow> u64 \<Rightarrow> u64" where
  "load_u64 mem p =
     ucast (mem p)
     OR push_bit 8 (ucast (mem (p + 1)))
     OR push_bit 16 (ucast (mem (p + 2)))
     OR push_bit 24 (ucast (mem (p + 3)))
     OR push_bit 32 (ucast (mem (p + 4)))
     OR push_bit 40 (ucast (mem (p + 5)))
     OR push_bit 48 (ucast (mem (p + 6)))
     OR push_bit 56 (ucast (mem (p + 7)))"

definition store_u64 :: "memory \<Rightarrow> u64 \<Rightarrow> u64 \<Rightarrow> memory" where
  "store_u64 mem p v =
     mem(p := ucast v,
         p + 1 := ucast (drop_bit 8 v),
         p + 2 := ucast (drop_bit 16 v),
         p + 3 := ucast (drop_bit 24 v),
         p + 4 := ucast (drop_bit 32 v),
         p + 5 := ucast (drop_bit 40 v),
         p + 6 := ucast (drop_bit 48 v),
         p + 7 := ucast (drop_bit 56 v))"

section \<open>Instruction codec (instruction\_set.c)\<close>

datatype InstructionType =
    INST_NOP | INST_ADD | INST_SUB | INST_MUL | INST_DIV | INST_AND | INST_OR
  | INST_XOR | INST_NOT | INST_SHL | INST_SHR | INST_LD | INST_ST | INST_JMP
  | INST_JZ | INST_JNZ | INST_CALL | INST_RET | INST_CMP | INST_MOV | INST_HLT

datatype InstructionFormat = FORMAT_R | FORMAT_I | FORMAT_M | FORMAT_J | FORMAT_S

record DecodedInstruction =
  di_type :: InstructionType
  di_format :: InstructionFormat
  di_opcode :: u8
  di_rd :: u8
  di_rs1 :: u8
  di_rs2 :: u8
  di_imm :: u64
  di_address :: u64

text \<open>The rows of \<open>instruction_table\<close>: opcode, type, format, mnemonic.\<close>

definition instruction_table :: "(u8 \<times> InstructionType \<times> InstructionFormat \<times> string) list" where
  "instruction_table =
    [(0x00, INST_NOP, FORMAT_R, ''nop''),
     (0x01, INST_ADD, FORMAT_R, ''add''),
     (0x02, INST_SUB, FORMAT_R, ''sub''),
     (0x03, INST_MUL, FORMAT_R, ''mul''),
     (0x04, INST_DIV, FORMAT_R, ''div''),
     (0x05, INST_AND, FORMAT_R, ''and''),
     (0x06, INST_OR, FORMAT_R, ''or''),
     (0x07, INST_XOR, FORMAT_R, ''xor''),
     (0x08, INST_NOT, FORMAT_R, ''not''),
     (0x09, INST_SHL, FORMAT_R, ''shl''),
     (0x0A, INST_SHR, FORMAT_R, ''shr''),
     (0x0B, INST_LD, FORMAT_M, ''ld''),
     (0x0C, INST_ST, FORMAT_M, ''st''),
     (0x0D, INST_JMP, FORMAT_J, ''jmp''),
     (0x0E, INST_JZ, FORMAT_J, ''jz''),
     (0x0F, INST_JNZ, FORMAT_J, ''jnz''),
     (0x10, INST_CALL, FORMAT_J, ''call''),
     (0x11, INST_RET, FORMAT_J, ''ret''),
     (0x12, INST_CMP, FORMAT_R, ''cmp''),
     (0x13, INST_MOV, FORMAT_R, ''mov''),
     (0x14, INST_HLT, FORMAT_S, ''hlt'')]"

definition row_opcode :: "u8 \<times> InstructionType \<times> InstructionFormat \<times> string \<Rightarrow> u8" where
  "row_opcode r = fst r"

definition row_type :: "u8 \<times> InstructionType \<times> InstructionFormat \<times> string \<Rightarrow> InstructionType" where
  "row_type r = fst (snd r)"

definition row_format :: "u8 \<times> InstructionType \<times> InstructionFormat \<times> string \<Rightarrow> InstructionFormat" where
  "row_format r = fst (snd (snd r))"

text \<open>
  \<open>DecodedInstruction inst = {0}\<close>: every field zero, that is \<open>INST_NOP\<close> and
  \<open>FORMAT_R\<close>, the first enumerators.
\<close>

definition zero_instruction :: DecodedInstruction where
  "zero_instruction =
     \<lparr>di_type = INST_NOP, di_format = FORMAT_R, di_opcode = 0, di_rd = 0, di_rs1 = 0,
      di_rs2 = 0, di_imm = 0, di_address = 0\<rparr>"

text \<open>
  \<open>decode_instruction(mem, pc)\<close>. The table loop stops at the first row with the opcode;
  an opcode without a row leaves type and format as initialised.
\<close>

definition decode_instruction :: "memory \<Rightarrow> u64 \<Rightarrow> DecodedInstruction" where
  "decode_instruction mem pc =
    (let ptr = (\<lambda>k. mem (pc + k));
         inst0 = zero_instruction\<lparr>di_opcode := ptr 0, di_type := INST_NOP\<rparr>;
         inst1 = (case find (\<lambda>r. row_opcode r = di_opcode inst0) instruction_table of
                    Some r \<Rightarrow> inst0\<lparr>di_type := row_type r, di_format := row_format r\<rparr>
                  | None \<Rightarrow> inst0)
     in if di_format inst1 = FORMAT_R \<or> di_format inst1 = FORMAT_M then
          (let inst2 = inst1\<lparr>di_rd := drop_bit 4 (ptr 1) AND 0x0F,
                             di_rs1 := ptr 1 AND 0x0F,
                             di_rs2 := drop_bit 4 (ptr 2) AND 0x0F\<rparr>
           in if di_format inst2 = FORMAT_M
              then inst2\<lparr>di_address := load_u64 mem (pc + 3)\<rparr>
              else inst2)
        else if di_format inst1 = FORMAT_I \<or> di_format inst1 = FORMAT_J then
          inst1\<lparr>di_rd := drop_bit 4 (ptr 1) AND 0x0F,
                 di_imm := load_u64 mem (pc + 2)\<rparr>
        else inst1)"

text \<open>
  \<open>encode_instruction(inst, buffer)\<close>, with \<open>buffer\<close> the store \<open>mem\<close> at offset \<open>p\<close>.
  It returns the size and the store as written. \<open>inst.rd << 4\<close> is computed in \<open>int\<close> and
  truncated to a byte on assignment, which is the shift of the byte.
\<close>

definition encode_instruction :: "DecodedInstruction \<Rightarrow> memory \<Rightarrow> u64 \<Rightarrow> u32 \<times> memory" where
  "encode_instruction inst mem p =
    (let mem1 = (case find (\<lambda>r. row_type r = di_type inst) instruction_table of
                   Some r \<Rightarrow> mem(p := row_opcode r)
                 | None \<Rightarrow> mem)
     in case di_format inst of
          FORMAT_R \<Rightarrow>
            (3, mem1(p + 1 := push_bit 4 (di_rd inst) OR (di_rs1 inst AND 0x0F),
                     p + 2 := push_bit 4 (di_rs2 inst)))
        | FORMAT_M \<Rightarrow>
            (3 + 8, store_u64 (mem1(p + 1 := push_bit 4 (di_rd inst) OR (di_rs1 inst AND 0x0F),
                                    p + 2 := push_bit 4 (di_rs2 inst)))
                              (p + 3) (di_address inst))
        | FORMAT_I \<Rightarrow>
            (10, store_u64 (mem1(p + 1 := push_bit 4 (di_rd inst))) (p + 2) (di_imm inst))
        | FORMAT_J \<Rightarrow>
            (10, store_u64 (mem1(p + 1 := push_bit 4 (di_rd inst))) (p + 2) (di_imm inst))
        | FORMAT_S \<Rightarrow> (1, mem1))"

text \<open>The table's format and opcode for a type (the first row with that type).\<close>

definition table_format :: "InstructionType \<Rightarrow> InstructionFormat option" where
  "table_format t = map_option row_format (find (\<lambda>r. row_type r = t) instruction_table)"

definition table_opcode :: "InstructionType \<Rightarrow> u8 option" where
  "table_opcode t = map_option row_opcode (find (\<lambda>r. row_type r = t) instruction_table)"

section \<open>Cache model (cache.c)\<close>

text \<open>
  C's \<open>int\<close> fields are integers; \<open>/\<close> and \<open>%\<close> on \<open>int\<close> truncate towards zero.
  No claim depends on \<open>int\<close> overflow, which the well-formedness predicates below exclude.
\<close>

definition c_div :: "int \<Rightarrow> int \<Rightarrow> int" where
  "c_div a b = sgn a * sgn b * (\<bar>a\<bar> div \<bar>b\<bar>)"

definition c_mod :: "int \<Rightarrow> int \<Rightarrow> int" where
  "c_mod a b = a - b * c_div a b"

datatype CacheType = CACHE_DIRECT_MAPPED | CACHE_SET_ASSOC | CACHE_FULL_ASSOC

record Cache =
  c_type :: CacheType
  c_size :: int
  c_line_size :: int
  c_associativity :: int
  c_num_sets :: int
  c_hit_time :: int
  c_miss_penalty :: int
  c_tags :: "u64 list list"
  c_valid :: "bool list list"
  c_lru_counters :: "u64 list"
  c_hits :: u64
  c_misses :: u64
  c_accesses :: u64

text \<open>
  What a constructor hands back. \<open>NullPointer\<close> is the \<open>return NULL\<close> after a failed
  \<open>malloc\<close> of the structure, the only error the constructor reports; whether that
  \<open>malloc\<close> succeeds is the argument \<open>alloc\<close>. \<open>DivideByZero\<close> is the integer division by
  zero of \<open>size / line_size\<close> or \<open>lines / associativity\<close>, where the C program traps.
  \<open>SegmentationFault\<close> is the \<open>memset\<close> of the LRU array when \<open>num_sets * associativity\<close>
  is negative: the byte count converts to a \<open>size_t\<close> no \<open>malloc\<close> grants, and \<open>memset\<close>
  writes through the \<open>NULL\<close> it got. The allocations of the arrays are otherwise taken to
  succeed; an array of a negative count is empty.
\<close>

datatype 'a construction = Constructed 'a | NullPointer | DivideByZero | SegmentationFault

definition cache_create ::
  "bool \<Rightarrow> CacheType \<Rightarrow> int \<Rightarrow> int \<Rightarrow> int \<Rightarrow> Cache construction" where
  "cache_create alloc type size_bytes line_size associativity =
    (if \<not> alloc then NullPointer
     else if line_size = 0 then DivideByZero
     else
       (let lines = c_div size_bytes line_size
        in if associativity = 0 then DivideByZero
           else
             (let num_sets = c_div lines associativity
              in if type = CACHE_SET_ASSOC \<and> num_sets * associativity < 0
                 then SegmentationFault
                 else Constructed
                   \<lparr>c_type = type, c_size = size_bytes, c_line_size = line_size,
                    c_associativity = associativity, c_num_sets = num_sets,
                    c_hit_time = 1, c_miss_penalty = 10,
                    c_tags = replicate (nat num_sets) (replicate (nat associativity) 0),
                    c_valid = replicate (nat num_sets) (replicate (nat associativity) False),
                    c_lru_counters =
                      (if type = CACHE_SET_ASSOC
                       then replicate (nat num_sets * nat associativity) 0 else []),
                    c_hits = 0, c_misses = 0, c_accesses = 0\<rparr>)))"

text \<open>
  The tag search of \<open>cache_access\<close>: the ways \<open>0 .. associativity - 1\<close> in order, returning
  at the first valid way holding the tag.
\<close>

fun find_way :: "bool list \<Rightarrow> u64 list \<Rightarrow> u64 \<Rightarrow> nat list \<Rightarrow> nat option" where
  "find_way valid tags tag [] = None"
| "find_way valid tags tag (i # ways) =
     (if valid ! i \<and> tags ! i = tag then Some i else find_way valid tags tag ways)"

text \<open>
  The victim loop of the set-associative branch: \<open>break\<close> with the first invalid way,
  otherwise keep the way whose counter is strictly below the running minimum.
  \<open>base\<close> is \<open>set_index * associativity\<close>.
\<close>

fun lru_victim :: "bool list \<Rightarrow> u64 list \<Rightarrow> nat \<Rightarrow> nat list \<Rightarrow> u64 \<Rightarrow> nat \<Rightarrow> nat" where
  "lru_victim valid lru base [] min_lru victim = victim"
| "lru_victim valid lru base (i # ways) min_lru victim =
     (if \<not> valid ! i then i
      else if lru ! (base + i) < min_lru
           then lru_victim valid lru base ways (lru ! (base + i)) i
           else lru_victim valid lru base ways min_lru victim)"

text \<open>The set index and the tag of an address, as \<open>cache_access\<close> computes them.\<close>

definition line_addr_of :: "Cache \<Rightarrow> u64 \<Rightarrow> u64" where
  "line_addr_of cache addr = addr div word_of_int (c_line_size cache)"

definition set_index_of :: "Cache \<Rightarrow> u64 \<Rightarrow> nat" where
  "set_index_of cache addr = unat (line_addr_of cache addr mod word_of_int (c_num_sets cache))"

definition tag_of :: "Cache \<Rightarrow> u64 \<Rightarrow> u64" where
  "tag_of cache addr = line_addr_of cache addr div word_of_int (c_num_sets cache)"

definition ways_of :: "Cache \<Rightarrow> nat list" where
  "ways_of cache = [0..<nat (c_associativity cache)]"

text \<open>The way the tag search finds for an address: \<open>Some\<close> way on a hit, \<open>None\<close> on a miss.\<close>

definition lookup_way :: "Cache \<Rightarrow> u64 \<Rightarrow> nat option" where
  "lookup_way cache addr =
     find_way (c_valid cache ! set_index_of cache addr) (c_tags cache ! set_index_of cache addr)
       (tag_of cache addr) (ways_of cache)"

text \<open>The victim way \<open>cache_access\<close> picks on a miss (\<open>int victim = 0\<close>, then the loop).\<close>

definition victim_way :: "Cache \<Rightarrow> u64 \<Rightarrow> nat" where
  "victim_way cache addr =
     (if c_type cache = CACHE_SET_ASSOC
      then lru_victim (c_valid cache ! set_index_of cache addr) (c_lru_counters cache)
             (set_index_of cache addr * nat (c_associativity cache)) (ways_of cache)
             0xFFFFFFFFFFFFFFFF 0
      else 0)"

text \<open>
  \<open>cache_access(cache, addr, is_write)\<close>: the latency returned and the cache as left.
  The arrays are indexed as the C code indexes them; outside a cache of the allocated
  shape (\<open>cache_shape\<close> below) the C accesses are out of bounds or divide by zero. The
  division traps are the \<open>None\<close> of \<open>cache_access_checked\<close> below.
\<close>

definition cache_access :: "Cache \<Rightarrow> u64 \<Rightarrow> bool \<Rightarrow> int \<times> Cache" where
  "cache_access cache addr is_write =
    (let c1 = cache\<lparr>c_accesses := c_accesses cache + 1\<rparr>;
         set_index = set_index_of c1 addr;
         tag = tag_of c1 addr
     in case lookup_way c1 addr of
          Some i \<Rightarrow>
            (let c2 = c1\<lparr>c_hits := c_hits c1 + 1\<rparr>;
                 c3 = (if c_type c2 = CACHE_SET_ASSOC
                       then c2\<lparr>c_lru_counters :=
                              (c_lru_counters c2)
                                [set_index * nat (c_associativity c2) + i := c_accesses c2]\<rparr>
                       else c2)
             in (c_hit_time c3, c3))
        | None \<Rightarrow>
            (let c2 = c1\<lparr>c_misses := c_misses c1 + 1\<rparr>;
                 victim = victim_way c2 addr;
                 c3 = c2\<lparr>c_valid :=
                           (c_valid c2)[set_index := (c_valid c2 ! set_index)[victim := True]]\<rparr>;
                 c4 = c3\<lparr>c_tags :=
                           (c_tags c3)[set_index := (c_tags c3 ! set_index)[victim := tag]]\<rparr>;
                 c5 = (if c_type c4 = CACHE_SET_ASSOC
                       then c4\<lparr>c_lru_counters :=
                              (c_lru_counters c4)
                                [set_index * nat (c_associativity c4) + victim := c_accesses c4]\<rparr>
                       else c4)
             in (c_miss_penalty c5, c5)))"

text \<open>A run of accesses (address and write flag), each to the cache the one before left.\<close>

fun cache_accesses :: "Cache \<Rightarrow> (u64 \<times> bool) list \<Rightarrow> Cache" where
  "cache_accesses cache [] = cache"
| "cache_accesses cache (a # as) = cache_accesses (snd (cache_access cache (fst a) (snd a))) as"

text \<open>
  A well-formed cache: positive geometry that fits C's \<open>int\<close>, the relation
  \<open>size = num_sets * associativity * line_size\<close>, and arrays of the allocated shape.
\<close>

definition cache_wf :: "Cache \<Rightarrow> bool" where
  "cache_wf cache \<longleftrightarrow>
     0 < c_line_size cache \<and> 0 < c_associativity cache \<and> 0 < c_num_sets cache \<and>
     c_size cache = c_num_sets cache * c_associativity cache * c_line_size cache \<and>
     c_size cache < 2 ^ 31 \<and>
     length (c_tags cache) = nat (c_num_sets cache) \<and>
     length (c_valid cache) = nat (c_num_sets cache) \<and>
     list_all (\<lambda>row. length row = nat (c_associativity cache)) (c_tags cache) \<and>
     list_all (\<lambda>row. length row = nat (c_associativity cache)) (c_valid cache) \<and>
     (c_type cache = CACHE_SET_ASSOC \<longrightarrow>
        length (c_lru_counters cache) = nat (c_num_sets cache) * nat (c_associativity cache))"

text \<open>
  The shape \<open>cache_access\<close> relies on, without the size relation: positive geometry in
  the range of C's \<open>int\<close> (also for the index \<open>set_index * associativity + way\<close>), and
  arrays of the allocated lengths. In a cache of this shape every index \<open>cache_access\<close>
  forms is inside its array and no divisor is 0.
\<close>

definition cache_shape :: "Cache \<Rightarrow> bool" where
  "cache_shape cache \<longleftrightarrow>
     0 < c_line_size cache \<and> c_line_size cache < 2 ^ 31 \<and>
     0 < c_associativity cache \<and> 0 < c_num_sets cache \<and>
     c_num_sets cache * c_associativity cache < 2 ^ 31 \<and>
     length (c_tags cache) = nat (c_num_sets cache) \<and>
     length (c_valid cache) = nat (c_num_sets cache) \<and>
     list_all (\<lambda>row. length row = nat (c_associativity cache)) (c_tags cache) \<and>
     list_all (\<lambda>row. length row = nat (c_associativity cache)) (c_valid cache) \<and>
     (c_type cache = CACHE_SET_ASSOC \<longrightarrow>
        length (c_lru_counters cache) = nat (c_num_sets cache) * nat (c_associativity cache))"



text \<open>A line is resident when the tag search finds it.\<close>

definition resident :: "Cache \<Rightarrow> u64 \<Rightarrow> bool" where
  "resident cache addr \<longleftrightarrow> lookup_way cache addr \<noteq> None"

text \<open>The first invalid way of a set, if it has one.\<close>

definition first_invalid :: "bool list \<Rightarrow> nat option" where
  "first_invalid valid = find (\<lambda>i. \<not> valid ! i) [0..<length valid]"

section \<open>Branch predictor (branch\_predictor.c)\<close>

datatype PredictorType =
  PREDICTOR_ALWAYS_TAKEN | PREDICTOR_ALWAYS_NOT_TAKEN | PREDICTOR_BIMODAL | PREDICTOR_GSHARE

record BranchPredictor =
  bp_type :: PredictorType
  bp_bhr_size :: int
  bp_pht_size :: int
  bp_bhr :: u32
  bp_pht :: "u8 list"
  bp_correct :: u64
  bp_total :: u64

text \<open>
  \<open>uint32_t index = pc % bp->pht_size\<close> and \<open>(pc ^ bp->bhr) % bp->pht_size\<close>: the table
  size is converted to \<open>uint64_t\<close>, the remainder truncated to 32 bits.
\<close>

definition bimodal_index :: "BranchPredictor \<Rightarrow> u64 \<Rightarrow> nat" where
  "bimodal_index bp pc = unat (ucast (pc mod word_of_int (bp_pht_size bp)) :: u32)"

definition gshare_index :: "BranchPredictor \<Rightarrow> u64 \<Rightarrow> nat" where
  "gshare_index bp pc =
     unat (ucast ((pc XOR ucast (bp_bhr bp)) mod word_of_int (bp_pht_size bp)) :: u32)"

definition bp_predict :: "BranchPredictor \<Rightarrow> u64 \<Rightarrow> bool \<times> BranchPredictor" where
  "bp_predict bp pc =
    (let bp1 = bp\<lparr>bp_total := bp_total bp + 1\<rparr>
     in case bp_type bp1 of
          PREDICTOR_ALWAYS_TAKEN \<Rightarrow> (True, bp1)
        | PREDICTOR_ALWAYS_NOT_TAKEN \<Rightarrow> (False, bp1)
        | PREDICTOR_BIMODAL \<Rightarrow> (2 \<le> bp_pht bp1 ! bimodal_index bp1 pc, bp1)
        | PREDICTOR_GSHARE \<Rightarrow> (2 \<le> bp_pht bp1 ! gshare_index bp1 pc, bp1))"

text \<open>The two-bit counter step shared by the bimodal and gshare branches.\<close>

definition pht_step :: "bool \<Rightarrow> u8 \<Rightarrow> u8" where
  "pht_step taken c =
     (if taken then (if c < 3 then c + 1 else c) else (if 0 < c then c - 1 else c))"

text \<open>
  \<open>bp_update(bp, pc, taken, predicted)\<close>. The mask \<open>(1 << bp->bhr_size) - 1\<close> is computed
  in \<open>int\<close> (defined by C for \<open>0 \<le> bhr_size \<le> 30\<close>) and converted to \<open>uint32_t\<close>.
\<close>

definition bp_update :: "BranchPredictor \<Rightarrow> u64 \<Rightarrow> bool \<Rightarrow> bool \<Rightarrow> BranchPredictor" where
  "bp_update bp pc taken predicted =
    (let bp1 = (if taken = predicted then bp\<lparr>bp_correct := bp_correct bp + 1\<rparr> else bp)
     in case bp_type bp1 of
          PREDICTOR_BIMODAL \<Rightarrow>
            (let index = bimodal_index bp1 pc
             in bp1\<lparr>bp_pht := (bp_pht bp1)[index := pht_step taken (bp_pht bp1 ! index)]\<rparr>)
        | PREDICTOR_GSHARE \<Rightarrow>
            (let index = gshare_index bp1 pc;
                 bp2 = bp1\<lparr>bp_pht := (bp_pht bp1)[index := pht_step taken (bp_pht bp1 ! index)]\<rparr>;
                 bp3 = bp2\<lparr>bp_bhr := push_bit 1 (bp_bhr bp2) OR (if taken then 1 else 0)\<rparr>
             in bp3\<lparr>bp_bhr := bp_bhr bp3 AND word_of_int (2 ^ nat (bp_bhr_size bp3) - 1)\<rparr>)
        | _ \<Rightarrow> bp1)"

text \<open>
  A well-formed predictor: a table of the configured positive size, and a history width
  for which the C shift is defined.
\<close>

definition bp_wf :: "BranchPredictor \<Rightarrow> bool" where
  "bp_wf bp \<longleftrightarrow>
     0 < bp_pht_size bp \<and> bp_pht_size bp < 2 ^ 31 \<and>
     length (bp_pht bp) = nat (bp_pht_size bp) \<and>
     0 \<le> bp_bhr_size bp \<and> bp_bhr_size bp \<le> 30"

text \<open>The table entry \<open>bp_update\<close> touches, for the table-based policies.\<close>

definition pht_index :: "BranchPredictor \<Rightarrow> u64 \<Rightarrow> nat" where
  "pht_index bp pc =
     (if bp_type bp = PREDICTOR_GSHARE then gshare_index bp pc else bimodal_index bp pc)"

section \<open>In-order pipeline (pipeline.c)\<close>

datatype PipelineStage =
  STAGE_FETCH | STAGE_DECODE | STAGE_EXECUTE | STAGE_MEMORY | STAGE_WRITEBACK | STAGE_COMMIT

record PipelineRegister =
  pr_pc :: u64
  pr_type :: InstructionType
  pr_opcode :: u8
  pr_src1 :: u64
  pr_src2 :: u64
  pr_dest :: u64
  pr_immediate :: u64
  pr_result :: u64
  pr_mem_addr :: u64
  pr_mem_data :: u64
  pr_stall :: bool
  pr_bubble :: bool
  pr_cycle_entered :: u64

text \<open>
  The processor. \<open>registers[16]\<close> is a list of sixteen words, \<open>pipeline[6]\<close> a register
  per stage, \<open>memory\<close> the byte store.
\<close>

record CPU =
  cpu_registers :: "u64 list"
  cpu_pc :: u64
  cpu_sp :: u64
  cpu_flags :: u64
  cpu_memory :: memory
  cpu_mem_size :: u64
  cpu_l1_cache :: Cache
  cpu_l2_cache :: Cache
  cpu_bp :: BranchPredictor
  cpu_pipeline :: "PipelineStage \<Rightarrow> PipelineRegister"
  cpu_current_stage :: PipelineStage
  cpu_cycles :: u64
  cpu_instructions :: u64
  cpu_stalls :: u64
  cpu_bubbles :: u64
  cpu_start_time :: u64

text \<open>The enumerators in order: \<open>stage_order ! i\<close> is the stage numbered \<open>i\<close>.\<close>

definition stage_order :: "PipelineStage list" where
  "stage_order =
     [STAGE_FETCH, STAGE_DECODE, STAGE_EXECUTE, STAGE_MEMORY, STAGE_WRITEBACK, STAGE_COMMIT]"

fun stage_number :: "PipelineStage \<Rightarrow> nat" where
  "stage_number STAGE_FETCH = 0"
| "stage_number STAGE_DECODE = 1"
| "stage_number STAGE_EXECUTE = 2"
| "stage_number STAGE_MEMORY = 3"
| "stage_number STAGE_WRITEBACK = 4"
| "stage_number STAGE_COMMIT = 5"

text \<open>The value an opcode below 21 has as an \<open>InstructionType\<close> (the assignment \<open>pr->type = opcode\<close>).\<close>

definition instruction_types :: "InstructionType list" where
  "instruction_types =
     [INST_NOP, INST_ADD, INST_SUB, INST_MUL, INST_DIV, INST_AND, INST_OR, INST_XOR,
      INST_NOT, INST_SHL, INST_SHR, INST_LD, INST_ST, INST_JMP, INST_JZ, INST_JNZ,
      INST_CALL, INST_RET, INST_CMP, INST_MOV, INST_HLT]"

definition type_of_opcode :: "u8 \<Rightarrow> InstructionType" where
  "type_of_opcode opcode = instruction_types ! unat opcode"

text \<open>\<open>check_hazard(cpu, stage, reg)\<close>: the stages after \<open>stage\<close> up to Commit.\<close>

definition check_hazard :: "CPU \<Rightarrow> PipelineStage \<Rightarrow> u64 \<Rightarrow> bool" where
  "check_hazard cpu stage reg =
     list_ex (\<lambda>s. pr_dest (cpu_pipeline cpu s) = reg \<and> pr_type (cpu_pipeline cpu s) \<noteq> INST_NOP)
       (drop (stage_number stage + 1) stage_order)"

definition zero_register :: PipelineRegister where
  "zero_register =
     \<lparr>pr_pc = 0, pr_type = INST_NOP, pr_opcode = 0, pr_src1 = 0, pr_src2 = 0, pr_dest = 0,
      pr_immediate = 0, pr_result = 0, pr_mem_addr = 0, pr_mem_data = 0, pr_stall = False,
      pr_bubble = False, pr_cycle_entered = 0\<rparr>"

text \<open>\<open>cpu_reset\<close>; \<open>now\<close> is the reading of \<open>get_time_ms()\<close>.\<close>

definition cpu_reset :: "u64 \<Rightarrow> CPU \<Rightarrow> CPU" where
  "cpu_reset now cpu =
     cpu\<lparr>cpu_registers := replicate 16 0, cpu_pc := 0x1000, cpu_sp := 0x8000, cpu_flags := 0,
         cpu_pipeline := (\<lambda>s. zero_register), cpu_current_stage := STAGE_FETCH,
         cpu_cycles := 0, cpu_instructions := 0, cpu_stalls := 0, cpu_bubbles := 0,
         cpu_start_time := now\<rparr>"

fun write_bytes :: "memory \<Rightarrow> u64 \<Rightarrow> u8 list \<Rightarrow> memory" where
  "write_bytes mem a [] = mem"
| "write_bytes mem a (b # bs) = write_bytes (mem(a := b)) (a + 1) bs"

text \<open>\<open>cpu_load_program\<close>, with \<open>size\<close> the length of the program; the status and the processor.\<close>

definition cpu_load_program :: "CPU \<Rightarrow> u8 list \<Rightarrow> u64 \<Rightarrow> int \<times> CPU" where
  "cpu_load_program cpu program address =
     (if cpu_mem_size cpu < address + word_of_nat (length program) then (- 1, cpu)
      else (0, cpu\<lparr>cpu_memory := write_bytes (cpu_memory cpu) address program,
                   cpu_pc := address\<rparr>))"

text \<open>
  The misprediction check of \<open>stage_fetch\<close> (its second block): flush Decode to Commit,
  redirect the program counter, charge three bubbles.
\<close>

definition flush_stage :: "PipelineRegister \<Rightarrow> PipelineRegister" where
  "flush_stage r = r\<lparr>pr_type := INST_NOP, pr_bubble := True\<rparr>"

definition is_jump :: "InstructionType \<Rightarrow> bool" where
  "is_jump t \<longleftrightarrow> t = INST_JMP \<or> t = INST_JZ \<or> t = INST_JNZ"

definition fetch_branch_check :: "CPU \<Rightarrow> CPU" where
  "fetch_branch_check cpu =
    (if is_jump (pr_type (cpu_pipeline cpu STAGE_EXECUTE)) then
       (let taken = (pr_result (cpu_pipeline cpu STAGE_EXECUTE) \<noteq> 0);
            (predicted, bp') = bp_predict (cpu_bp cpu) (pr_pc (cpu_pipeline cpu STAGE_EXECUTE));
            cpu1 = cpu\<lparr>cpu_bp := bp'\<rparr>
        in if taken \<noteq> predicted then
             (let cpu2 = cpu1\<lparr>cpu_pipeline :=
                           (\<lambda>s. if s \<in> set (drop 1 stage_order)
                                then flush_stage (cpu_pipeline cpu1 s) else cpu_pipeline cpu1 s)\<rparr>;
                  cpu3 = cpu2\<lparr>cpu_pc := pr_result (cpu_pipeline cpu2 STAGE_EXECUTE)\<rparr>
              in cpu3\<lparr>cpu_bubbles := cpu_bubbles cpu3 + 3\<rparr>)
           else cpu1)
     else cpu)"

text \<open>The rest of \<open>stage_fetch\<close>: the cache access, the opcode read and the increment.\<close>

definition fetch_opcode :: "CPU \<Rightarrow> CPU" where
  "fetch_opcode cpu =
    (let cpu1 = cpu\<lparr>cpu_l1_cache := snd (cache_access (cpu_l1_cache cpu) (cpu_pc cpu) False)\<rparr>;
         opcode = cpu_memory cpu1 (cpu_pc cpu1);
         pr = (cpu_pipeline cpu1 STAGE_FETCH)
                \<lparr>pr_pc := cpu_pc cpu1, pr_opcode := opcode, pr_cycle_entered := cpu_cycles cpu1\<rparr>;
         pr' = (if opcode < 20 then pr\<lparr>pr_type := type_of_opcode opcode\<rparr>
                else pr\<lparr>pr_type := INST_NOP\<rparr>)
     in cpu1\<lparr>cpu_pipeline := (cpu_pipeline cpu1)(STAGE_FETCH := pr'), cpu_pc := cpu_pc cpu1 + 1\<rparr>)"

definition stage_fetch :: "CPU \<Rightarrow> CPU" where
  "stage_fetch cpu =
    (if pr_stall (cpu_pipeline cpu STAGE_FETCH) then cpu\<lparr>cpu_stalls := cpu_stalls cpu + 1\<rparr>
     else fetch_opcode (fetch_branch_check cpu))"

definition stage_decode :: "CPU \<Rightarrow> CPU" where
  "stage_decode cpu =
    (let pr = cpu_pipeline cpu STAGE_DECODE; prev = cpu_pipeline cpu STAGE_FETCH
     in if pr_bubble prev then
          cpu\<lparr>cpu_pipeline := (cpu_pipeline cpu)
                 (STAGE_DECODE := pr\<lparr>pr_type := INST_NOP, pr_bubble := True\<rparr>)\<rparr>
        else if check_hazard cpu STAGE_DECODE (pr_src1 prev) \<or>
                check_hazard cpu STAGE_DECODE (pr_src2 prev) then
          cpu\<lparr>cpu_pipeline := (cpu_pipeline cpu)
                 (STAGE_FETCH := prev\<lparr>pr_stall := True\<rparr>,
                  STAGE_DECODE := pr\<lparr>pr_type := INST_NOP\<rparr>),
              cpu_stalls := cpu_stalls cpu + 1\<rparr>
        else
          (let pr1 = prev\<lparr>pr_cycle_entered := cpu_cycles cpu\<rparr>;
               pr2 = pr1\<lparr>pr_src1 := cpu_registers cpu ! unat (pr_opcode pr1 AND 0x0F)\<rparr>;
               pr3 = pr2\<lparr>pr_src2 := cpu_registers cpu ! unat (drop_bit 4 (pr_opcode pr2) AND 0x0F)\<rparr>
           in cpu\<lparr>cpu_pipeline := (cpu_pipeline cpu)(STAGE_DECODE := pr3)\<rparr>))"

text \<open>The \<open>switch\<close> of \<open>stage_execute\<close>: the result, and the flags word (\<open>INST_CMP\<close> sets it).\<close>

definition execute_result :: "PipelineRegister \<Rightarrow> u64 \<Rightarrow> u64 \<times> u64" where
  "execute_result pr flags =
    (case pr_type pr of
       INST_ADD \<Rightarrow> (pr_src1 pr + pr_src2 pr, flags)
     | INST_SUB \<Rightarrow> (pr_src1 pr - pr_src2 pr, flags)
     | INST_MUL \<Rightarrow> (pr_src1 pr * pr_src2 pr, flags)
     | INST_AND \<Rightarrow> (pr_src1 pr AND pr_src2 pr, flags)
     | INST_OR \<Rightarrow> (pr_src1 pr OR pr_src2 pr, flags)
     | INST_XOR \<Rightarrow> (pr_src1 pr XOR pr_src2 pr, flags)
     | INST_SHL \<Rightarrow> (push_bit (unat (pr_src2 pr AND 0x3F)) (pr_src1 pr), flags)
     | INST_SHR \<Rightarrow> (drop_bit (unat (pr_src2 pr AND 0x3F)) (pr_src1 pr), flags)
     | INST_JMP \<Rightarrow> (pr_immediate pr, flags)
     | INST_JZ \<Rightarrow> (if pr_src1 pr = 0 then pr_immediate pr else pr_pc pr + 1, flags)
     | INST_JNZ \<Rightarrow> (if pr_src1 pr \<noteq> 0 then pr_immediate pr else pr_pc pr + 1, flags)
     | INST_CMP \<Rightarrow> (pr_src1 pr - pr_src2 pr, pr_src1 pr - pr_src2 pr)
     | INST_MOV \<Rightarrow> (pr_src1 pr, flags)
     | _ \<Rightarrow> (0, flags))"

definition stage_execute :: "CPU \<Rightarrow> CPU" where
  "stage_execute cpu =
    (let pr = cpu_pipeline cpu STAGE_EXECUTE; prev = cpu_pipeline cpu STAGE_DECODE
     in if pr_bubble prev then
          cpu\<lparr>cpu_pipeline := (cpu_pipeline cpu)
                 (STAGE_EXECUTE := pr\<lparr>pr_type := INST_NOP, pr_bubble := True\<rparr>)\<rparr>
        else
          (let pr1 = prev\<lparr>pr_cycle_entered := cpu_cycles cpu\<rparr>;
               (res, flags) = execute_result pr1 (cpu_flags cpu);
               pr2 = pr1\<lparr>pr_result := res\<rparr>;
               cpu1 = cpu\<lparr>cpu_pipeline := (cpu_pipeline cpu)(STAGE_EXECUTE := pr2),
                          cpu_flags := flags\<rparr>
           in if is_jump (pr_type pr2) then
                (let taken = (pr_result pr2 \<noteq> pr_pc pr2 + 1);
                     (predicted, bp') = bp_predict (cpu_bp cpu1) (pr_pc pr2)
                 in cpu1\<lparr>cpu_bp := bp_update bp' (pr_pc pr2) taken predicted\<rparr>)
              else cpu1))"

definition stage_memory :: "CPU \<Rightarrow> CPU" where
  "stage_memory cpu =
    (let pr = cpu_pipeline cpu STAGE_MEMORY; prev = cpu_pipeline cpu STAGE_EXECUTE
     in if pr_bubble prev then
          cpu\<lparr>cpu_pipeline := (cpu_pipeline cpu)
                 (STAGE_MEMORY := pr\<lparr>pr_type := INST_NOP, pr_bubble := True\<rparr>)\<rparr>
        else
          (let pr1 = prev\<lparr>pr_cycle_entered := cpu_cycles cpu\<rparr>
           in if pr_type pr1 = INST_LD then
                cpu\<lparr>cpu_l1_cache := snd (cache_access (cpu_l1_cache cpu) (pr_mem_addr pr1) False),
                    cpu_pipeline := (cpu_pipeline cpu)
                      (STAGE_MEMORY := pr1\<lparr>pr_result := load_u64 (cpu_memory cpu) (pr_mem_addr pr1)\<rparr>)\<rparr>
              else if pr_type pr1 = INST_ST then
                cpu\<lparr>cpu_l1_cache := snd (cache_access (cpu_l1_cache cpu) (pr_mem_addr pr1) True),
                    cpu_pipeline := (cpu_pipeline cpu)(STAGE_MEMORY := pr1),
                    cpu_memory := store_u64 (cpu_memory cpu) (pr_mem_addr pr1) (pr_mem_data pr1)\<rparr>
              else cpu\<lparr>cpu_pipeline := (cpu_pipeline cpu)(STAGE_MEMORY := pr1)\<rparr>))"

definition stage_writeback :: "CPU \<Rightarrow> CPU" where
  "stage_writeback cpu =
    (let pr = cpu_pipeline cpu STAGE_WRITEBACK; prev = cpu_pipeline cpu STAGE_MEMORY
     in if pr_bubble prev then
          cpu\<lparr>cpu_pipeline := (cpu_pipeline cpu)
                 (STAGE_WRITEBACK := pr\<lparr>pr_type := INST_NOP, pr_bubble := True\<rparr>)\<rparr>
        else
          (let pr1 = prev\<lparr>pr_cycle_entered := cpu_cycles cpu\<rparr>;
               cpu1 = cpu\<lparr>cpu_pipeline := (cpu_pipeline cpu)(STAGE_WRITEBACK := pr1)\<rparr>;
               cpu2 = (if pr_dest pr1 < 16
                       then cpu1\<lparr>cpu_registers :=
                              (cpu_registers cpu1)[unat (pr_dest pr1) := pr_result pr1]\<rparr>
                       else cpu1)
           in cpu2\<lparr>cpu_instructions := cpu_instructions cpu2 + 1\<rparr>))"

definition stage_commit :: "CPU \<Rightarrow> CPU" where
  "stage_commit cpu =
    (let pr = cpu_pipeline cpu STAGE_COMMIT; prev = cpu_pipeline cpu STAGE_WRITEBACK;
         cpu1 = (if pr_bubble prev
                 then cpu\<lparr>cpu_pipeline := (cpu_pipeline cpu)
                        (STAGE_COMMIT := pr\<lparr>pr_type := INST_NOP, pr_bubble := False\<rparr>)\<rparr>
                 else cpu\<lparr>cpu_pipeline := (cpu_pipeline cpu)(STAGE_COMMIT := prev)\<rparr>)
     in cpu1\<lparr>cpu_pipeline := (cpu_pipeline cpu1)
              (STAGE_FETCH := (cpu_pipeline cpu1 STAGE_FETCH)\<lparr>pr_stall := False\<rparr>)\<rparr>)"

definition cpu_step :: "CPU \<Rightarrow> CPU" where
  "cpu_step cpu =
    (let cpu1 = stage_commit cpu;
         cpu2 = stage_writeback cpu1;
         cpu3 = stage_memory cpu2;
         cpu4 = stage_execute cpu3;
         cpu5 = stage_decode cpu4;
         cpu6 = stage_fetch cpu5
     in cpu6\<lparr>cpu_cycles := cpu_cycles cpu6 + 1\<rparr>)"

text \<open>
  The five stages \<open>cpu_step\<close> runs ahead of \<open>stage_fetch\<close>: the state the fetch stage of
  a cycle starts in.
\<close>

definition stages_before_fetch :: "CPU \<Rightarrow> CPU" where
  "stages_before_fetch cpu =
     stage_decode (stage_execute (stage_memory (stage_writeback (stage_commit cpu))))"

text \<open>\<open>cpu_run(cpu, cycles)\<close>: the loop counter runs from 0 up to \<open>cycles\<close>.\<close>

fun cpu_steps :: "nat \<Rightarrow> CPU \<Rightarrow> CPU" where
  "cpu_steps 0 cpu = cpu"
| "cpu_steps (Suc n) cpu = cpu_steps n (cpu_step cpu)"

definition cpu_run :: "CPU \<Rightarrow> u64 \<Rightarrow> CPU" where
  "cpu_run cpu cycles = cpu_steps (unat cycles) cpu"

text \<open>
  What holds of the pipeline registers in every run from \<open>cpu_reset\<close>: no stage writes a
  destination field, a source field of the Fetch register or the bubble flag of the Fetch
  register, so the destination fields and the Fetch register's source fields stay 0; and
  no stage holds a bubble.
\<close>

definition pipeline_inv :: "CPU \<Rightarrow> bool" where
  "pipeline_inv cpu \<longleftrightarrow>
     (\<forall>s. pr_dest (cpu_pipeline cpu s) = 0) \<and> (\<forall>s. \<not> pr_bubble (cpu_pipeline cpu s)) \<and>
     pr_src1 (cpu_pipeline cpu STAGE_FETCH) = 0 \<and> pr_src2 (cpu_pipeline cpu STAGE_FETCH) = 0"

text \<open>No stage writes an immediate field either: after a reset they all hold 0.\<close>

definition immediates_zero :: "CPU \<Rightarrow> bool" where
  "immediates_zero cpu \<longleftrightarrow> list_all (\<lambda>s. pr_immediate (cpu_pipeline cpu s) = 0) stage_order"

text \<open>Sixteen registers, all but R0 holding 0.\<close>

definition upper_registers_zero :: "CPU \<Rightarrow> bool" where
  "upper_registers_zero cpu \<longleftrightarrow>
     length (cpu_registers cpu) = 16 \<and> list_all (\<lambda>r. r = 0) (tl (cpu_registers cpu))"

text \<open>
  The pipeline is busy when an instruction other than a no-op sits in Decode, Execute,
  Memory or Writeback.
\<close>

definition pipeline_busy :: "CPU \<Rightarrow> bool" where
  "pipeline_busy cpu \<longleftrightarrow>
     pr_type (cpu_pipeline cpu STAGE_DECODE) \<noteq> INST_NOP
     \<or> pr_type (cpu_pipeline cpu STAGE_EXECUTE) \<noteq> INST_NOP
     \<or> pr_type (cpu_pipeline cpu STAGE_MEMORY) \<noteq> INST_NOP
     \<or> pr_type (cpu_pipeline cpu STAGE_WRITEBACK) \<noteq> INST_NOP"

section \<open>Out-of-order engine (tomasulo.c)\<close>

record ReservationStation =
  rs_busy :: bool
  rs_op :: InstructionType
  rs_vj :: u64
  rs_vk :: u64
  rs_qj :: u64
  rs_qk :: u64
  rs_dest :: u64
  rs_address :: u64
  rs_result :: u64
  rs_result_ready :: bool

record ROBEntry =
  rob_busy :: bool
  rob_op :: InstructionType
  rob_result :: u64
  rob_dest :: u64
  rob_ready :: bool
  rob_exception :: bool

record TomasuloCPU =
  t_rs :: "ReservationStation list"
  t_rob :: "ROBEntry list"
  t_registers :: "u64 list"
  t_reg_status :: "u64 list"
  t_rs_count :: int
  t_rob_size :: int
  t_rs_head :: int
  t_rs_tail :: int
  t_rob_head :: int
  t_rob_tail :: int
  t_clock :: u64
  t_instructions_issued :: u64
  t_instructions_completed :: u64
  t_instructions_committed :: u64

definition zero_station :: ReservationStation where
  "zero_station =
     \<lparr>rs_busy = False, rs_op = INST_NOP, rs_vj = 0, rs_vk = 0, rs_qj = 0, rs_qk = 0,
      rs_dest = 0, rs_address = 0, rs_result = 0, rs_result_ready = False\<rparr>"

definition zero_entry :: ROBEntry where
  "zero_entry =
     \<lparr>rob_busy = False, rob_op = INST_NOP, rob_result = 0, rob_dest = 0, rob_ready = False,
      rob_exception = False\<rparr>"

text \<open>
  \<open>tomasulo_create\<close>: \<open>calloc\<close> zeroes the arrays; \<open>alloc\<close> says whether the allocations
  succeed (\<open>NULL\<close> is returned when one fails).
\<close>

definition tomasulo_create :: "bool \<Rightarrow> int \<Rightarrow> int \<Rightarrow> TomasuloCPU option" where
  "tomasulo_create alloc rs_count rob_size =
    (if \<not> alloc then None
     else Some \<lparr>t_rs = replicate (nat rs_count) zero_station,
                t_rob = replicate (nat rob_size) zero_entry,
                t_registers = replicate 32 0, t_reg_status = replicate 32 0,
                t_rs_count = rs_count, t_rob_size = rob_size,
                t_rs_head = 0, t_rs_tail = 0, t_rob_head = 0, t_rob_tail = 0,
                t_clock = 0, t_instructions_issued = 0, t_instructions_completed = 0,
                t_instructions_committed = 0\<rparr>)"

text \<open>The station search of \<open>tomasulo_issue\<close>: the first index whose station is not busy.\<close>

definition free_station :: "TomasuloCPU \<Rightarrow> nat option" where
  "free_station cpu = find (\<lambda>i. \<not> rs_busy (t_rs cpu ! i)) [0..<nat (t_rs_count cpu)]"

text \<open>
  \<open>tomasulo_issue(cpu, inst)\<close>: the flag returned and the engine as left. The register
  indices are the instruction's bytes; \<open>rob_idx + 1\<close> is converted to \<open>uint64_t\<close>.
\<close>

definition tomasulo_issue :: "TomasuloCPU \<Rightarrow> DecodedInstruction \<Rightarrow> bool \<times> TomasuloCPU" where
  "tomasulo_issue cpu inst =
    (case free_station cpu of
       None \<Rightarrow> (False, cpu)
     | Some i \<Rightarrow>
        (let s0 = (t_rs cpu ! i)\<lparr>rs_busy := True, rs_op := di_type inst,
                                 rs_dest := ucast (di_rd inst)\<rparr>;
             s1 = (if t_reg_status cpu ! unat (di_rs1 inst) = 0
                   then s0\<lparr>rs_vj := t_registers cpu ! unat (di_rs1 inst), rs_qj := 0\<rparr>
                   else s0\<lparr>rs_qj := t_reg_status cpu ! unat (di_rs1 inst)\<rparr>);
             s2 = (if t_reg_status cpu ! unat (di_rs2 inst) = 0
                   then s1\<lparr>rs_vk := t_registers cpu ! unat (di_rs2 inst), rs_qk := 0\<rparr>
                   else s1\<lparr>rs_qk := t_reg_status cpu ! unat (di_rs2 inst)\<rparr>);
             rob_idx = t_rob_tail cpu;
             e = (t_rob cpu ! nat rob_idx)\<lparr>rob_busy := True, rob_op := di_type inst,
                    rob_dest := ucast (di_rd inst), rob_ready := False, rob_exception := False\<rparr>
         in (True,
             cpu\<lparr>t_rs := (t_rs cpu)[i := s2],
                 t_rob := (t_rob cpu)[nat rob_idx := e],
                 t_reg_status := (t_reg_status cpu)[unat (di_rd inst) := word_of_int (rob_idx + 1)],
                 t_rob_tail := c_mod (t_rob_tail cpu + 1) (t_rob_size cpu),
                 t_instructions_issued := t_instructions_issued cpu + 1\<rparr>)))"

text \<open>One iteration of the loop of \<open>tomasulo_execute\<close>, for station \<open>i\<close>.\<close>

definition execute_station :: "TomasuloCPU \<Rightarrow> nat \<Rightarrow> TomasuloCPU" where
  "execute_station cpu i =
    (let s = t_rs cpu ! i
     in if rs_busy s \<and> rs_qj s = 0 \<and> rs_qk s = 0 then
          (let r = (case rs_op s of
                      INST_ADD \<Rightarrow> rs_vj s + rs_vk s
                    | INST_SUB \<Rightarrow> rs_vj s - rs_vk s
                    | INST_MUL \<Rightarrow> rs_vj s * rs_vk s
                    | _ \<Rightarrow> 0)
           in cpu\<lparr>t_rs := (t_rs cpu)[i := s\<lparr>rs_result := r, rs_result_ready := True\<rparr>],
                  t_instructions_completed := t_instructions_completed cpu + 1\<rparr>)
        else cpu)"

definition tomasulo_execute :: "TomasuloCPU \<Rightarrow> TomasuloCPU" where
  "tomasulo_execute cpu = foldl execute_station cpu [0..<nat (t_rs_count cpu)]"

text \<open>
  One iteration of the outer loop of \<open>tomasulo_writeback\<close>: the inner loop takes the
  first reorder-buffer index whose entry is busy and not ready.
\<close>

definition writeback_station :: "TomasuloCPU \<Rightarrow> nat \<Rightarrow> TomasuloCPU" where
  "writeback_station cpu i =
    (let s = t_rs cpu ! i
     in if rs_busy s \<and> rs_result_ready s then
          (let cpu1 =
                 (case find (\<lambda>j. rob_busy (t_rob cpu ! j) \<and> \<not> rob_ready (t_rob cpu ! j))
                         [0..<nat (t_rob_size cpu)] of
                    Some j \<Rightarrow>
                      cpu\<lparr>t_rob := (t_rob cpu)
                             [j := (t_rob cpu ! j)\<lparr>rob_result := rs_result s, rob_ready := True\<rparr>]\<rparr>
                  | None \<Rightarrow> cpu)
           in cpu1\<lparr>t_rs := (t_rs cpu1)[i := s\<lparr>rs_busy := False, rs_result_ready := False\<rparr>]\<rparr>)
        else cpu)"

definition tomasulo_writeback :: "TomasuloCPU \<Rightarrow> TomasuloCPU" where
  "tomasulo_writeback cpu = foldl writeback_station cpu [0..<nat (t_rs_count cpu)]"

text \<open>
  The body of the \<open>while\<close> loop of \<open>tomasulo_commit\<close>: retire the head entry.
\<close>

definition commit_head :: "TomasuloCPU \<Rightarrow> TomasuloCPU" where
  "commit_head cpu =
    (let h = nat (t_rob_head cpu);
         entry = t_rob cpu ! h;
         cpu1 = (if \<not> rob_exception entry
                 then cpu\<lparr>t_registers := (t_registers cpu)[unat (rob_dest entry) := rob_result entry],
                          t_reg_status := (t_reg_status cpu)[unat (rob_dest entry) := 0]\<rparr>
                 else cpu)
     in cpu1\<lparr>t_rob := (t_rob cpu1)[h := entry\<lparr>rob_busy := False\<rparr>],
             t_rob_head := c_mod (t_rob_head cpu1 + 1) (t_rob_size cpu1),
             t_instructions_committed := t_instructions_committed cpu1 + 1\<rparr>)"

text \<open>
  The loop condition, with the bound the C code leaves to its caller written out: the
  head index lies inside the buffer.
\<close>

definition head_ready :: "TomasuloCPU \<Rightarrow> bool" where
  "head_ready cpu \<longleftrightarrow>
     0 \<le> t_rob_head cpu \<and> nat (t_rob_head cpu) < length (t_rob cpu) \<and>
     rob_busy (t_rob cpu ! nat (t_rob_head cpu)) \<and> rob_ready (t_rob cpu ! nat (t_rob_head cpu))"

function tomasulo_commit :: "TomasuloCPU \<Rightarrow> TomasuloCPU" where
  "tomasulo_commit cpu = (if head_ready cpu then tomasulo_commit (commit_head cpu) else cpu)"
  by pat_completeness auto
termination
proof (relation "measure (\<lambda>cpu. length (filter rob_busy (t_rob cpu)))")
  show "wf (measure (\<lambda>cpu. length (filter rob_busy (t_rob cpu))))"
    by simp
next
  fix cpu :: TomasuloCPU
  assume ready: "head_ready cpu"
  have drop_one: "length (filter P (xs[i := y])) < length (filter P xs)"
    if "i < length xs" and "P (xs ! i)" and "\<not> P y" for P :: "ROBEntry \<Rightarrow> bool" and xs i y
    using that
  proof (induction xs arbitrary: i)
    case Nil
    then show ?case by simp
  next
    case (Cons x xs)
    then show ?case by (cases i) auto
  qed
  have "length (filter rob_busy (t_rob (commit_head cpu)))
        < length (filter rob_busy (t_rob cpu))"
    using ready by (auto simp add: commit_head_def head_ready_def Let_def intro!: drop_one)
  then show "(commit_head cpu, cpu) \<in> measure (\<lambda>cpu. length (filter rob_busy (t_rob cpu)))"
    by simp
qed

declare tomasulo_commit.simps [simp del]

text \<open>
  A well-formed engine: arrays of the allocated sizes, indices inside the reorder buffer.
\<close>

definition tomasulo_wf :: "TomasuloCPU \<Rightarrow> bool" where
  "tomasulo_wf cpu \<longleftrightarrow>
     0 \<le> t_rs_count cpu \<and> length (t_rs cpu) = nat (t_rs_count cpu) \<and>
     0 < t_rob_size cpu \<and> t_rob_size cpu < 2 ^ 31 \<and>
     length (t_rob cpu) = nat (t_rob_size cpu) \<and>
     length (t_registers cpu) = 32 \<and> length (t_reg_status cpu) = 32 \<and>
     0 \<le> t_rob_head cpu \<and> t_rob_head cpu < t_rob_size cpu \<and>
     0 \<le> t_rob_tail cpu \<and> t_rob_tail cpu < t_rob_size cpu"

section \<open>Concrete inputs\<close>

definition zero_memory :: memory where
  "zero_memory = (\<lambda>a. 0)"

text \<open>\<open>add r1, r2, r3\<close> and a \<open>jmp\<close> whose first source-register field holds 1.\<close>

definition add_r1_r2_r3 :: DecodedInstruction where
  "add_r1_r2_r3 =
     \<lparr>di_type = INST_ADD, di_format = FORMAT_R, di_opcode = 0x01, di_rd = 1, di_rs1 = 2,
      di_rs2 = 3, di_imm = 0, di_address = 0\<rparr>"

definition jmp_with_rs1 :: DecodedInstruction where
  "jmp_with_rs1 =
     \<lparr>di_type = INST_JMP, di_format = FORMAT_J, di_opcode = 0x0D, di_rd = 0, di_rs1 = 1,
      di_rs2 = 0, di_imm = 0x2000, di_address = 0\<rparr>"

text \<open>
  What \<open>cache_create(type, 128, 64, 2)\<close> builds (one set of two ways), what
  \<open>cache_create(CACHE_DIRECT_MAPPED, 128, 64, 1)\<close> builds (two sets of one way), and what
  \<open>cache_create(CACHE_SET_ASSOC, 1000, 64, 4)\<close> builds (1000 is not a multiple of 256).
\<close>

definition two_way_cache :: "CacheType \<Rightarrow> Cache" where
  "two_way_cache t =
     \<lparr>c_type = t, c_size = 128, c_line_size = 64, c_associativity = 2, c_num_sets = 1,
      c_hit_time = 1, c_miss_penalty = 10, c_tags = [[0, 0]], c_valid = [[False, False]],
      c_lru_counters = (if t = CACHE_SET_ASSOC then [0, 0] else []),
      c_hits = 0, c_misses = 0, c_accesses = 0\<rparr>"

definition direct_cache :: Cache where
  "direct_cache =
     \<lparr>c_type = CACHE_DIRECT_MAPPED, c_size = 128, c_line_size = 64, c_associativity = 1,
      c_num_sets = 2, c_hit_time = 1, c_miss_penalty = 10, c_tags = [[0], [0]],
      c_valid = [[False], [False]], c_lru_counters = [],
      c_hits = 0, c_misses = 0, c_accesses = 0\<rparr>"


text \<open>The two-way cache after one access to address 0.\<close>

definition warm_two_way :: "CacheType \<Rightarrow> Cache" where
  "warm_two_way t = snd (cache_access (two_way_cache t) 0 False)"

text \<open>
  The two-way set-associative cache after accesses to lines 0, 1 and again 0: both ways
  are valid, and way 1 (line 1) is the least recently used.
\<close>

definition aged_two_way :: Cache where
  "aged_two_way =
     cache_accesses (two_way_cache CACHE_SET_ASSOC) [(0, False), (64, False), (0, False)]"


text \<open>
  Two accesses to lines 0 and 2, which share set 0 of \<open>direct_cache\<close> with tags 0 and 1;
  and two accesses to the distinct addresses 0 and 1 of the one line 0.
\<close>

definition aliasing_pair :: "(u64 \<times> bool) list" where
  "aliasing_pair = [(0, False), (128, False)]"

definition same_line_pair :: "(u64 \<times> bool) list" where
  "same_line_pair = [(0, False), (1, False)]"

text \<open>A gshare predictor with a four-entry table and two bits of history.\<close>

definition small_gshare :: BranchPredictor where
  "small_gshare =
     \<lparr>bp_type = PREDICTOR_GSHARE, bp_bhr_size = 2, bp_pht_size = 4, bp_bhr = 3,
      bp_pht = [2, 2, 2, 3], bp_correct = 0, bp_total = 0\<rparr>"

text \<open>A bimodal predictor with a four-entry table.\<close>

definition small_bimodal :: BranchPredictor where
  "small_bimodal =
     \<lparr>bp_type = PREDICTOR_BIMODAL, bp_bhr_size = 2, bp_pht_size = 4, bp_bhr = 0,
      bp_pht = [2, 2, 0, 3], bp_correct = 0, bp_total = 0\<rparr>"

text \<open>
  What \<open>tomasulo_create(2, 2)\<close> builds, and the same engine with both stations busy.
\<close>

definition fresh_engine :: TomasuloCPU where
  "fresh_engine =
     \<lparr>t_rs = [zero_station, zero_station], t_rob = [zero_entry, zero_entry],
      t_registers = replicate 32 0, t_reg_status = replicate 32 0,
      t_rs_count = 2, t_rob_size = 2, t_rs_head = 0, t_rs_tail = 0, t_rob_head = 0,
      t_rob_tail = 0, t_clock = 0, t_instructions_issued = 0, t_instructions_completed = 0,
      t_instructions_committed = 0\<rparr>"

definition full_engine :: TomasuloCPU where
  "full_engine =
     fresh_engine\<lparr>t_rs := [zero_station\<lparr>rs_busy := True\<rparr>, zero_station\<lparr>rs_busy := True\<rparr>]\<rparr>"

text \<open>
  The dependency chain of the commit-ordering scenario on an engine with three stations
  and a four-entry reorder buffer, its register file holding r2 = 1, r3 = 2, r6 = 10,
  r7 = 20: \<open>add r1, r2, r3\<close>, then \<open>add r4, r1, r2\<close> (which needs r1), then the
  independent \<open>add r5, r6, r7\<close>. \<open>chain_issued\<close> is the engine after the three issues,
  \<open>chain_round\<close> after one execute, writeback and commit.
\<close>

definition chain_engine :: TomasuloCPU where
  "chain_engine =
     \<lparr>t_rs = [zero_station, zero_station, zero_station],
      t_rob = [zero_entry, zero_entry, zero_entry, zero_entry],
      t_registers = [0, 0, 1, 2, 0, 0, 10, 20] @ replicate 24 0,
      t_reg_status = replicate 32 0,
      t_rs_count = 3, t_rob_size = 4, t_rs_head = 0, t_rs_tail = 0, t_rob_head = 0,
      t_rob_tail = 0, t_clock = 0, t_instructions_issued = 0, t_instructions_completed = 0,
      t_instructions_committed = 0\<rparr>"

definition add_r4_r1_r2 :: DecodedInstruction where
  "add_r4_r1_r2 =
     \<lparr>di_type = INST_ADD, di_format = FORMAT_R, di_opcode = 0x01, di_rd = 4, di_rs1 = 1,
      di_rs2 = 2, di_imm = 0, di_address = 0\<rparr>"

definition add_r5_r6_r7 :: DecodedInstruction where
  "add_r5_r6_r7 =
     \<lparr>di_type = INST_ADD, di_format = FORMAT_R, di_opcode = 0x01, di_rd = 5, di_rs1 = 6,
      di_rs2 = 7, di_imm = 0, di_address = 0\<rparr>"

definition chain_issued :: TomasuloCPU where
  "chain_issued =
     snd (tomasulo_issue (snd (tomasulo_issue (snd (tomasulo_issue chain_engine add_r1_r2_r3))
                                add_r4_r1_r2))
            add_r5_r6_r7)"

definition tomasulo_round :: "TomasuloCPU \<Rightarrow> TomasuloCPU" where
  "tomasulo_round cpu = tomasulo_commit (tomasulo_writeback (tomasulo_execute cpu))"

definition chain_round :: TomasuloCPU where
  "chain_round = tomasulo_round chain_issued"

text \<open>
  The processor \<open>cpu_create(64 * KiB)\<close> builds and resets: an 8-way 32 KiB first-level
  and a 16-way 256 KiB second-level cache of 64-byte lines, a bimodal predictor of 4096
  counters at 2, the registers and pipeline as \<open>cpu_reset\<close> leaves them. Its memory,
  which \<open>malloc\<close> leaves undetermined, is taken as zero-filled, the clock reading as 0.
\<close>

definition created_l1 :: Cache where
  "created_l1 =
     \<lparr>c_type = CACHE_SET_ASSOC, c_size = 32768, c_line_size = 64, c_associativity = 8,
      c_num_sets = 64, c_hit_time = 1, c_miss_penalty = 10,
      c_tags = replicate 64 (replicate 8 0), c_valid = replicate 64 (replicate 8 False),
      c_lru_counters = replicate 512 0, c_hits = 0, c_misses = 0, c_accesses = 0\<rparr>"

definition created_l2 :: Cache where
  "created_l2 =
     \<lparr>c_type = CACHE_SET_ASSOC, c_size = 262144, c_line_size = 64, c_associativity = 16,
      c_num_sets = 256, c_hit_time = 1, c_miss_penalty = 10,
      c_tags = replicate 256 (replicate 16 0), c_valid = replicate 256 (replicate 16 False),
      c_lru_counters = replicate 4096 0, c_hits = 0, c_misses = 0, c_accesses = 0\<rparr>"

definition created_bp :: BranchPredictor where
  "created_bp =
     \<lparr>bp_type = PREDICTOR_BIMODAL, bp_bhr_size = 12, bp_pht_size = 4096, bp_bhr = 0,
      bp_pht = replicate 4096 2, bp_correct = 0, bp_total = 0\<rparr>"

definition created_cpu :: CPU where
  "created_cpu =
     \<lparr>cpu_registers = replicate 16 0, cpu_pc = 0x1000, cpu_sp = 0x8000, cpu_flags = 0,
      cpu_memory = zero_memory, cpu_mem_size = 65536, cpu_l1_cache = created_l1,
      cpu_l2_cache = created_l2, cpu_bp = created_bp, cpu_pipeline = (\<lambda>s. zero_register),
      cpu_current_stage = STAGE_FETCH, cpu_cycles = 0, cpu_instructions = 0, cpu_stalls = 0,
      cpu_bubbles = 0, cpu_start_time = 0\<rparr>"

text \<open>
  The created processor with its predictor forced to always-not-taken (the structure
  \<open>bp_create(PREDICTOR_ALWAYS_NOT_TAKEN, 12, 4096)\<close> builds in its place), holding the
  program \<open>jmp; nop\<close> at 0x1000; and the state in which the fetch stage of its third
  cycle starts, when the \<open>jmp\<close> has reached Execute.
\<close>

definition not_taken_bp :: BranchPredictor where
  "not_taken_bp = created_bp\<lparr>bp_type := PREDICTOR_ALWAYS_NOT_TAKEN\<rparr>"

definition jmp_program :: "u8 list" where
  "jmp_program = [0x0D, 0x00]"

definition jmp_cpu :: CPU where
  "jmp_cpu = snd (cpu_load_program (created_cpu\<lparr>cpu_bp := not_taken_bp\<rparr>) jmp_program 0x1000)"

definition jmp_in_execute :: CPU where
  "jmp_in_execute = stages_before_fetch (cpu_steps 2 jmp_cpu)"

text \<open>The same state with the stall flag of the Fetch register cleared.\<close>

definition jmp_in_execute_unstalled :: CPU where
  "jmp_in_execute_unstalled =
     jmp_in_execute\<lparr>cpu_pipeline := (cpu_pipeline jmp_in_execute)
       (STAGE_FETCH := (cpu_pipeline jmp_in_execute STAGE_FETCH)\<lparr>pr_stall := False\<rparr>)\<rparr>"

text \<open>
  The programs of the pipeline scenarios, in the byte layout the repository's tests use:
  \<open>mov r0, 10; add r1, r0, r0\<close>, and \<open>mov\<close> followed by \<open>hlt\<close>.
\<close>

definition hazard_program :: "u8 list" where
  "hazard_program = [0x13, 0, 10, 0x01, 1, 0, 0]"

text \<open>
  \<open>mov r0\<close> and \<open>add r1, r0, r0\<close> as \<open>encode_instruction\<close> lays them out (the Register
  format has no immediate).
\<close>

definition hazard_program_encoded :: "u8 list" where
  "hazard_program_encoded = [0x13, 0x00, 0x00, 0x01, 0x10, 0x00]"




text \<open>The program of the repository's integration test: \<open>mov r0, 10; mov r1, 20; add r2, r0, r1; hlt\<close>.\<close>

definition integration_program :: "u8 list" where
  "integration_program = [0x13, 0, 10, 0x13, 1, 20, 0x01, 2, 0, 1, 0x14]"

section \<open>The codec round trip\<close>

lemma byte_piece: "(ucast (ucast (drop_bit k v :: u64) :: u8) :: u64) = take_bit 8 (drop_bit k v)"
  by (rule bit_word_eqI) (simp add: bit_simps)

lemma ucast_piece0: "(ucast (ucast (v :: u64) :: u8) :: u64) = take_bit 8 v"
  by (rule bit_word_eqI) (simp add: bit_simps)

lemma u64_pieces:
  "take_bit 8 v
     OR push_bit 8 (take_bit 8 (drop_bit 8 v))
     OR push_bit 16 (take_bit 8 (drop_bit 16 v))
     OR push_bit 24 (take_bit 8 (drop_bit 24 v))
     OR push_bit 32 (take_bit 8 (drop_bit 32 v))
     OR push_bit 40 (take_bit 8 (drop_bit 40 v))
     OR push_bit 48 (take_bit 8 (drop_bit 48 v))
     OR push_bit 56 (take_bit 8 (drop_bit 56 v)) = (v :: u64)"
proof (rule bit_word_eqI)
  fix n :: nat
  assume n: "n < LENGTH(64)"
  then have "n < 64" by simp
  then consider "n < 8" | "8 \<le> n \<and> n < 16" | "16 \<le> n \<and> n < 24" | "24 \<le> n \<and> n < 32"
    | "32 \<le> n \<and> n < 40" | "40 \<le> n \<and> n < 48" | "48 \<le> n \<and> n < 56" | "56 \<le> n \<and> n < 64"
    by linarith
  then show "bit (take_bit 8 v
     OR push_bit 8 (take_bit 8 (drop_bit 8 v))
     OR push_bit 16 (take_bit 8 (drop_bit 16 v))
     OR push_bit 24 (take_bit 8 (drop_bit 24 v))
     OR push_bit 32 (take_bit 8 (drop_bit 32 v))
     OR push_bit 40 (take_bit 8 (drop_bit 40 v))
     OR push_bit 48 (take_bit 8 (drop_bit 48 v))
     OR push_bit 56 (take_bit 8 (drop_bit 56 v))) n = bit v n"
    by cases (auto simp add: bit_simps)
qed

lemma load_store_u64: "load_u64 (store_u64 mem p v) p = v"
  unfolding load_u64_def store_u64_def
  by (simp add: byte_piece ucast_piece0 u64_pieces)

lemma nib_hi: "x < 16 \<Longrightarrow> drop_bit 4 (push_bit 4 x OR (y AND 0x0F)) AND 0x0F = (x::u8)"
proof -
  assume "x < 16"
  then have x: "take_bit 4 x = x"
    using less_mask_eq [of _ 4] by (simp add: take_bit_eq_mask)
  have m: "(0x0F :: u8) = mask 4" by (simp add: mask_eq_exp_minus_1)
  have "drop_bit 4 (push_bit 4 x OR (y AND mask 4)) AND mask 4 = take_bit 4 x"
    by (rule bit_word_eqI) (auto simp add: bit_simps)
  then show ?thesis using x m by simp
qed

lemma nib_lo: "y < 16 \<Longrightarrow> (push_bit 4 x OR (y AND 0x0F)) AND 0x0F = (y::u8)"
proof -
  assume "y < 16"
  then have y: "take_bit 4 y = y"
    using less_mask_eq [of _ 4] by (simp add: take_bit_eq_mask)
  have m: "(0x0F :: u8) = mask 4" by (simp add: mask_eq_exp_minus_1)
  have "(push_bit 4 x OR (y AND mask 4)) AND mask 4 = take_bit 4 y"
    by (rule bit_word_eqI) (auto simp add: bit_simps)
  then show ?thesis using y m by simp
qed

lemma nib_only: "x < 16 \<Longrightarrow> drop_bit 4 (push_bit 4 x) AND 0x0F = (x::u8)"
  using nib_hi [of x 0] by simp

lemma store_u64_frame2:
  "store_u64 mem (p + 2) v p = mem p"
  "store_u64 mem (p + 2) v (p + 1) = mem (p + 1)"
  by (simp_all add: store_u64_def)

lemma store_u64_frame3:
  "store_u64 mem (p + 3) v p = mem p"
  "store_u64 mem (p + 3) v (p + 1) = mem (p + 1)"
  "store_u64 mem (p + 3) v (p + 2) = mem (p + 2)"
  by (simp_all add: store_u64_def)

lemma find_type_row:
  "find (\<lambda>r. row_type r = t) instruction_table = Some r \<Longrightarrow>
     find (\<lambda>q. row_opcode q = row_opcode r) instruction_table = Some r"
  by (cases t; clarsimp simp add: instruction_table_def row_type_def row_opcode_def)

lemma decode_R:
  assumes "find (\<lambda>q. row_opcode q = mem p) instruction_table = Some r"
    and "row_format r = FORMAT_R"
  shows "decode_instruction mem p =
    \<lparr>di_type = row_type r, di_format = FORMAT_R, di_opcode = mem p,
     di_rd = drop_bit 4 (mem (p + 1)) AND 0x0F, di_rs1 = mem (p + 1) AND 0x0F,
     di_rs2 = drop_bit 4 (mem (p + 2)) AND 0x0F, di_imm = 0, di_address = 0\<rparr>"
  using assms by (simp add: decode_instruction_def zero_instruction_def)

lemma decode_M:
  assumes "find (\<lambda>q. row_opcode q = mem p) instruction_table = Some r"
    and "row_format r = FORMAT_M"
  shows "decode_instruction mem p =
    \<lparr>di_type = row_type r, di_format = FORMAT_M, di_opcode = mem p,
     di_rd = drop_bit 4 (mem (p + 1)) AND 0x0F, di_rs1 = mem (p + 1) AND 0x0F,
     di_rs2 = drop_bit 4 (mem (p + 2)) AND 0x0F, di_imm = 0,
     di_address = load_u64 mem (p + 3)\<rparr>"
  using assms by (simp add: decode_instruction_def zero_instruction_def)

lemma decode_IJ:
  assumes "find (\<lambda>q. row_opcode q = mem p) instruction_table = Some r"
    and "row_format r = FORMAT_I \<or> row_format r = FORMAT_J"
  shows "decode_instruction mem p =
    \<lparr>di_type = row_type r, di_format = row_format r, di_opcode = mem p,
     di_rd = drop_bit 4 (mem (p + 1)) AND 0x0F, di_rs1 = 0,
     di_rs2 = 0, di_imm = load_u64 mem (p + 2), di_address = 0\<rparr>"
  using assms by (auto simp add: decode_instruction_def zero_instruction_def)

lemma decode_S:
  assumes "find (\<lambda>q. row_opcode q = mem p) instruction_table = Some r"
    and "row_format r = FORMAT_S"
  shows "decode_instruction mem p =
    \<lparr>di_type = row_type r, di_format = FORMAT_S, di_opcode = mem p,
     di_rd = 0, di_rs1 = 0, di_rs2 = 0, di_imm = 0, di_address = 0\<rparr>"
  using assms by (simp add: decode_instruction_def zero_instruction_def)

text \<open>
  Claim C1, as the code has it. For an instruction whose format is the table's format for
  its type and whose register fields are below 16, decoding what \<open>encode_instruction\<close>
  wrote gives back the type and the format, the table's opcode, and the fields the format
  carries: the destination register unless the format is System, the two source registers
  for the Register and Memory formats, the address for the Memory format, the immediate
  for the Immediate and Jump formats. A field the format does not carry decodes as 0.
\<close>

theorem encode_decode_roundtrip:
  assumes fmt: "table_format (di_type inst) = Some (di_format inst)"
    and rd: "di_rd inst < 16" and rs1: "di_rs1 inst < 16" and rs2: "di_rs2 inst < 16"
  shows "decode_instruction (snd (encode_instruction inst mem p)) p =
    \<lparr>di_type = di_type inst, di_format = di_format inst,
     di_opcode = the (table_opcode (di_type inst)),
     di_rd = (if di_format inst = FORMAT_S then 0 else di_rd inst),
     di_rs1 = (if di_format inst = FORMAT_R \<or> di_format inst = FORMAT_M then di_rs1 inst else 0),
     di_rs2 = (if di_format inst = FORMAT_R \<or> di_format inst = FORMAT_M then di_rs2 inst else 0),
     di_imm = (if di_format inst = FORMAT_I \<or> di_format inst = FORMAT_J then di_imm inst else 0),
     di_address = (if di_format inst = FORMAT_M then di_address inst else 0)\<rparr>"
proof -
  define m where "m = snd (encode_instruction inst mem p)"
  obtain r where r: "find (\<lambda>r. row_type r = di_type inst) instruction_table = Some r"
    and rf: "row_format r = di_format inst"
    using fmt by (auto simp add: table_format_def)
  have ro: "find (\<lambda>q. row_opcode q = row_opcode r) instruction_table = Some r"
    using r by (rule find_type_row)
  have rt: "row_type r = di_type inst"
    using r by (auto simp add: find_Some_iff)
  have op: "the (table_opcode (di_type inst)) = row_opcode r"
    using r by (simp add: table_opcode_def)
  show ?thesis
  proof (cases "di_format inst")
    case FORMAT_R
    have b: "m p = row_opcode r"
      "m (p + 1) = push_bit 4 (di_rd inst) OR (di_rs1 inst AND 0x0F)"
      "m (p + 2) = push_bit 4 (di_rs2 inst)"
      using r FORMAT_R by (simp_all add: m_def encode_instruction_def)
    have "decode_instruction m p = \<lparr>di_type = row_type r, di_format = FORMAT_R, di_opcode = m p,
       di_rd = drop_bit 4 (m (p + 1)) AND 0x0F, di_rs1 = m (p + 1) AND 0x0F,
       di_rs2 = drop_bit 4 (m (p + 2)) AND 0x0F, di_imm = 0, di_address = 0\<rparr>"
      using ro rf FORMAT_R b(1) by (intro decode_R) simp_all
    then show ?thesis
      using FORMAT_R rt op rd rs1 rs2
      by (simp add: b nib_hi nib_lo nib_only flip: m_def)
  next
    case FORMAT_I
    have b: "m p = row_opcode r"
      "m (p + 1) = push_bit 4 (di_rd inst)"
      "load_u64 m (p + 2) = di_imm inst"
      using r FORMAT_I
      by (simp_all add: m_def encode_instruction_def store_u64_frame2 load_store_u64)
    have "decode_instruction m p = \<lparr>di_type = row_type r, di_format = row_format r, di_opcode = m p,
       di_rd = drop_bit 4 (m (p + 1)) AND 0x0F, di_rs1 = 0,
       di_rs2 = 0, di_imm = load_u64 m (p + 2), di_address = 0\<rparr>"
      using ro rf FORMAT_I b(1) by (intro decode_IJ) simp_all
    then show ?thesis
      using FORMAT_I rt op rd rf
      by (simp add: b nib_only flip: m_def)
  next
    case FORMAT_M
    have b: "m p = row_opcode r"
      "m (p + 1) = push_bit 4 (di_rd inst) OR (di_rs1 inst AND 0x0F)"
      "m (p + 2) = push_bit 4 (di_rs2 inst)"
      "load_u64 m (p + 3) = di_address inst"
      using r FORMAT_M
      by (simp_all add: m_def encode_instruction_def store_u64_frame3 load_store_u64)
    have "decode_instruction m p = \<lparr>di_type = row_type r, di_format = FORMAT_M, di_opcode = m p,
       di_rd = drop_bit 4 (m (p + 1)) AND 0x0F, di_rs1 = m (p + 1) AND 0x0F,
       di_rs2 = drop_bit 4 (m (p + 2)) AND 0x0F, di_imm = 0,
       di_address = load_u64 m (p + 3)\<rparr>"
      using ro rf FORMAT_M b(1) by (intro decode_M) simp_all
    then show ?thesis
      using FORMAT_M rt op rd rs1 rs2
      by (simp add: b nib_hi nib_lo nib_only flip: m_def)
  next
    case FORMAT_J
    have b: "m p = row_opcode r"
      "m (p + 1) = push_bit 4 (di_rd inst)"
      "load_u64 m (p + 2) = di_imm inst"
      using r FORMAT_J
      by (simp_all add: m_def encode_instruction_def store_u64_frame2 load_store_u64)
    have "decode_instruction m p = \<lparr>di_type = row_type r, di_format = row_format r, di_opcode = m p,
       di_rd = drop_bit 4 (m (p + 1)) AND 0x0F, di_rs1 = 0,
       di_rs2 = 0, di_imm = load_u64 m (p + 2), di_address = 0\<rparr>"
      using ro rf FORMAT_J b(1) by (intro decode_IJ) simp_all
    then show ?thesis
      using FORMAT_J rt op rd rf
      by (simp add: b nib_only flip: m_def)
  next
    case FORMAT_S
    have b: "m p = row_opcode r"
      using r FORMAT_S by (simp_all add: m_def encode_instruction_def)
    have "decode_instruction m p = \<lparr>di_type = row_type r, di_format = FORMAT_S, di_opcode = m p,
     di_rd = 0, di_rs1 = 0, di_rs2 = 0, di_imm = 0, di_address = 0\<rparr>"
      using ro rf FORMAT_S b(1) by (intro decode_S) simp_all
    then show ?thesis
      using FORMAT_S rt op
      by (simp add: b flip: m_def)
  qed
qed

theorem encode_decode_roundtrip_witness:
  "decode_instruction (snd (encode_instruction add_r1_r2_r3 zero_memory 0x1000)) 0x1000
     = add_r1_r2_r3"
  using encode_decode_roundtrip [of add_r1_r2_r3 zero_memory "0x1000"]
  by (simp add: add_r1_r2_r3_def table_format_def table_opcode_def instruction_table_def
      row_type_def row_format_def row_opcode_def)

text \<open>
  The round trip as C1 states it fails for a jump: the Jump format has no source-register
  field, so a source register of 1 comes back as 0.
\<close>

theorem roundtrip_loses_jump_source:
  "table_format (di_type jmp_with_rs1) = Some (di_format jmp_with_rs1)
   \<and> di_rd jmp_with_rs1 < 16 \<and> di_rs1 jmp_with_rs1 < 16 \<and> di_rs2 jmp_with_rs1 < 16
   \<and> di_rs1 (decode_instruction (snd (encode_instruction jmp_with_rs1 zero_memory 0)) 0)
       \<noteq> di_rs1 jmp_with_rs1"
proof -
  let ?m = "snd (encode_instruction jmp_with_rs1 zero_memory 0)"
  have op: "?m 0 = 0x0D"
    by (simp add: encode_instruction_def jmp_with_rs1_def instruction_table_def row_type_def
        row_opcode_def store_u64_def)
  have row: "find (\<lambda>q. row_opcode q = ?m 0) instruction_table
               = Some (0x0D, INST_JMP, FORMAT_J, ''jmp'')"
    unfolding op by (simp add: instruction_table_def row_opcode_def)
  have "di_rs1 (decode_instruction ?m 0) = 0"
    using decode_IJ [where mem = ?m and p = 0, OF row] by (simp add: row_format_def)
  then show ?thesis
    by (simp add: jmp_with_rs1_def table_format_def instruction_table_def row_type_def
        row_format_def)
qed

section \<open>The cache\<close>

lemma c_div_nonneg: "0 \<le> a \<Longrightarrow> 0 < b \<Longrightarrow> c_div a b = a div b"
  by (simp add: c_div_def sgn_if)

lemma c_mod_nonneg: "0 \<le> a \<Longrightarrow> 0 < b \<Longrightarrow> c_mod a b = a mod b"
  by (simp add: c_mod_def c_div_nonneg minus_mult_div_eq_mod)

text \<open>The concrete caches are the ones the constructor builds.\<close>

lemma concrete_caches_created:
  "cache_create True t 128 64 2 = Constructed (two_way_cache t)"
  "cache_create True CACHE_DIRECT_MAPPED 128 64 1 = Constructed direct_cache"
  "cache_create True CACHE_SET_ASSOC (32 * 1024) 64 8 = Constructed created_l1"
  "cache_create True CACHE_SET_ASSOC (256 * 1024) 64 16 = Constructed created_l2"
  by (simp_all add: cache_create_def c_div_def two_way_cache_def direct_cache_def
      created_l1_def created_l2_def eval_nat_numeral)

lemma unat_word_of_int_small:
  "0 \<le> n \<Longrightarrow> n < 2 ^ 31 \<Longrightarrow> unat (word_of_int n :: u64) = nat n"
proof -
  assume n: "0 \<le> n" "n < 2 ^ 31"
  then have "n < 2 ^ 64" by simp
  then have "take_bit 64 n = n"
    using n(1) by (simp add: take_bit_int_eq_self)
  then show ?thesis
    by (simp add: unat_eq_nat_uint uint_word_of_int_eq)
qed

lemma set_index_bound:
  assumes "0 < c_num_sets c" and "c_num_sets c < 2 ^ 31"
  shows "set_index_of c addr < nat (c_num_sets c)"
proof -
  let ?n = "word_of_int (c_num_sets c) :: u64"
  have u: "unat ?n = nat (c_num_sets c)"
    using assms by (simp add: unat_word_of_int_small)
  then have "0 < unat ?n" using assms by simp
  then have "0 < ?n" by (simp add: word_less_nat_alt)
  then have "line_addr_of c addr mod ?n < ?n"
    by (rule word_mod_less_divisor)
  then show ?thesis
    using u by (simp add: set_index_of_def word_less_nat_alt)
qed

lemma wf_num_sets_small: "cache_wf c \<Longrightarrow> c_num_sets c < 2 ^ 31"
proof -
  assume wf: "cache_wf c"
  then have p: "0 < c_line_size c" "0 < c_associativity c" "0 < c_num_sets c"
    and s: "c_num_sets c * c_associativity c * c_line_size c < 2 ^ 31"
    by (simp_all add: cache_wf_def)
  have "1 \<le> c_associativity c * c_line_size c"
    using p by (simp add: int_one_le_iff_zero_less)
  then have "c_num_sets c * 1 \<le> c_num_sets c * (c_associativity c * c_line_size c)"
    using p(3) by (intro mult_left_mono) simp_all
  then show ?thesis using s by (simp add: mult.assoc)
qed

lemma wf_set_index: "cache_wf c \<Longrightarrow> set_index_of c addr < nat (c_num_sets c)"
  using set_index_bound [of c addr] wf_num_sets_small [of c] by (simp add: cache_wf_def)

lemma find_way_Some:
  "find_way valid tags tag ways = Some i \<Longrightarrow> i \<in> set ways \<and> valid ! i \<and> tags ! i = tag"
  by (induction ways) (auto split: if_splits)

lemma find_way_None:
  "find_way valid tags tag ways = None \<longleftrightarrow> (\<forall>i\<in>set ways. \<not> (valid ! i \<and> tags ! i = tag))"
  by (induction ways) auto

lemma lru_victim_invalid:
  "find (\<lambda>i. \<not> valid ! i) ways = Some k \<Longrightarrow> lru_victim valid lru base ways m v = k"
  by (induction ways arbitrary: m v) (auto split: if_splits)

lemma lru_victim_all_valid:
  assumes "\<forall>i\<in>set ways. valid ! i"
  shows "(lru_victim valid lru base ways m v = v \<and> (\<forall>i\<in>set ways. m \<le> lru ! (base + i)))
       \<or> (lru_victim valid lru base ways m v \<in> set ways
          \<and> lru ! (base + lru_victim valid lru base ways m v) < m
          \<and> (\<forall>i\<in>set ways. lru ! (base + lru_victim valid lru base ways m v) \<le> lru ! (base + i)))"
  using assms
proof (induction ways arbitrary: m v)
  case Nil
  then show ?case by simp
next
  case (Cons i ways)
  have valid: "valid ! i" and rest: "\<forall>j\<in>set ways. valid ! j"
    using Cons.prems by simp_all
  show ?case
  proof (cases "lru ! (base + i) < m")
    case True
    let ?r = "lru_victim valid lru base ways (lru ! (base + i)) i"
    have step: "lru_victim valid lru base (i # ways) m v = ?r"
      using valid True by simp
    from Cons.IH [OF rest, of "lru ! (base + i)" i]
    show ?thesis
      unfolding step using True by (auto intro: order.strict_trans less_imp_le)
  next
    case False
    let ?r = "lru_victim valid lru base ways m v"
    have step: "lru_victim valid lru base (i # ways) m v = ?r"
      using valid False by simp
    from Cons.IH [OF rest, of m v]
    show ?thesis
      unfolding step using False by (auto simp add: not_less intro: order.trans less_imp_le)
  qed
qed

lemma lru_victim_in_range:
  "0 < n \<Longrightarrow> lru_victim valid lru base [0..<n] m 0 < n"
proof (cases "find (\<lambda>i. \<not> valid ! i) [0..<n]")
  case None
  assume n: "0 < n"
  from None have "\<forall>i\<in>set [0..<n]. valid ! i"
    by (auto simp add: find_None_iff)
  from lru_victim_all_valid [OF this, of lru base m 0] n show ?thesis by auto
next
  case (Some k)
  then have "k \<in> set [0..<n]" by (auto simp add: find_Some_iff)
  then show ?thesis using lru_victim_invalid [OF Some] by simp
qed

lemma geometry_accesses:
  "set_index_of (c\<lparr>c_accesses := x\<rparr>) a = set_index_of c a"
  "tag_of (c\<lparr>c_accesses := x\<rparr>) a = tag_of c a"
  "lookup_way (c\<lparr>c_accesses := x\<rparr>) a = lookup_way c a"
  "victim_way (c\<lparr>c_accesses := x, c_misses := y\<rparr>) a = victim_way c a"
  by (simp_all add: set_index_of_def tag_of_def line_addr_of_def lookup_way_def ways_of_def
      victim_way_def)

lemma cache_access_hit:
  assumes "lookup_way c a = Some i"
  shows "cache_access c a w =
    (c_hit_time c,
     c\<lparr>c_accesses := c_accesses c + 1, c_hits := c_hits c + 1,
       c_lru_counters :=
         (if c_type c = CACHE_SET_ASSOC
          then (c_lru_counters c)
                 [set_index_of c a * nat (c_associativity c) + i := c_accesses c + 1]
          else c_lru_counters c)\<rparr>)"
  using assms by (simp add: cache_access_def geometry_accesses)

lemma cache_access_miss:
  assumes "lookup_way c a = None"
  shows "cache_access c a w =
    (c_miss_penalty c,
     c\<lparr>c_accesses := c_accesses c + 1, c_misses := c_misses c + 1,
       c_valid := (c_valid c)
         [set_index_of c a := (c_valid c ! set_index_of c a)[victim_way c a := True]],
       c_tags := (c_tags c)
         [set_index_of c a := (c_tags c ! set_index_of c a)[victim_way c a := tag_of c a]],
       c_lru_counters :=
         (if c_type c = CACHE_SET_ASSOC
          then (c_lru_counters c)
                 [set_index_of c a * nat (c_associativity c) + victim_way c a := c_accesses c + 1]
          else c_lru_counters c)\<rparr>)"
  using assms by (simp add: cache_access_def geometry_accesses Let_def)

lemma wf_rows:
  assumes "cache_wf c"
  shows "length (c_valid c ! set_index_of c a) = nat (c_associativity c)"
    and "length (c_tags c ! set_index_of c a) = nat (c_associativity c)"
    and "set_index_of c a < length (c_valid c)"
    and "set_index_of c a < length (c_tags c)"
  using assms wf_set_index [OF assms, of a]
  by (simp_all add: cache_wf_def list_all_length)

lemma victim_in_range:
  assumes "cache_wf c"
  shows "victim_way c a < nat (c_associativity c)"
proof -
  have "0 < nat (c_associativity c)"
    using assms by (simp add: cache_wf_def)
  then show ?thesis
    by (simp add: victim_way_def ways_of_def lru_victim_in_range)
qed

lemma list_all_update_row:
  "list_all (\<lambda>row. length row = n) rows \<Longrightarrow>
     list_all (\<lambda>row. length row = n) (rows[s := (rows ! s)[v := x]])"
proof -
  assume rows: "list_all (\<lambda>row. length row = n) rows"
  have "length (rows[s := (rows ! s)[v := x]] ! k) = n" if "k < length rows" for k
    using that rows by (cases "k = s") (simp_all add: list_all_length)
  then show ?thesis by (simp add: list_all_length)
qed

lemma cache_access_wf:
  assumes "cache_wf c"
  shows "cache_wf (snd (cache_access c a w))"
proof (cases "lookup_way c a")
  case None
  show ?thesis
    using assms unfolding cache_access_miss [OF None]
    by (simp add: cache_wf_def list_all_update_row)
next
  case (Some i)
  show ?thesis
    using assms unfolding cache_access_hit [OF Some]
    by (simp add: cache_wf_def)
qed

lemma cache_access_geometry:
  "set_index_of (snd (cache_access c a w)) b = set_index_of c b"
  "tag_of (snd (cache_access c a w)) b = tag_of c b"
  "ways_of (snd (cache_access c a w)) = ways_of c"
  "c_associativity (snd (cache_access c a w)) = c_associativity c"
  by (cases "lookup_way c a";
      simp add: cache_access_hit cache_access_miss set_index_of_def tag_of_def line_addr_of_def
        ways_of_def)+

lemma cache_access_resident:
  assumes "cache_wf c"
  shows "resident (snd (cache_access c a w)) a"
proof (cases "lookup_way c a")
  case None
  let ?s = "set_index_of c a" and ?v = "victim_way c a"
  let ?c' = "snd (cache_access c a w)"
  have v: "?v < nat (c_associativity c)" by (rule victim_in_range [OF assms])
  have "c_valid ?c' ! ?s ! ?v" and "c_tags ?c' ! ?s ! ?v = tag_of c a"
    using v wf_rows [OF assms, of a] by (simp_all add: cache_access_miss [OF None])
  moreover have "?v \<in> set (ways_of c)" using v by (simp add: ways_of_def)
  ultimately have "lookup_way ?c' a \<noteq> None"
    by (auto simp add: lookup_way_def find_way_None cache_access_geometry)
  then show ?thesis by (simp add: resident_def)
next
  case (Some i)
  have "lookup_way (snd (cache_access c a w)) a = Some i"
    using Some unfolding cache_access_hit [OF Some]
    by (simp add: lookup_way_def set_index_of_def tag_of_def line_addr_of_def ways_of_def)
  then show ?thesis by (simp add: resident_def)
qed

lemma cache_accesses_wf: "cache_wf c \<Longrightarrow> cache_wf (cache_accesses c ops)"
  by (induction ops arbitrary: c) (simp_all add: cache_access_wf)

lemma cache_accesses_geometry:
  "set_index_of (cache_accesses c ops) b = set_index_of c b"
  "tag_of (cache_accesses c ops) b = tag_of c b"
  "ways_of (cache_accesses c ops) = ways_of c"
  "c_associativity (cache_accesses c ops) = c_associativity c"
  by (induction ops arbitrary: c; simp add: cache_access_geometry)+

lemma cache_accesses_append:
  "cache_accesses c (xs @ ys) = cache_accesses (cache_accesses c xs) ys"
  by (induction xs arbitrary: c) simp_all

text \<open>
  The same facts for a cache of the allocated shape, without the size relation; a
  well-formed cache has that shape.
\<close>

lemma wf_shape: "cache_wf c \<Longrightarrow> cache_shape c"
proof -
  assume wf: "cache_wf c"
  then have p: "0 < c_line_size c" "0 < c_associativity c" "0 < c_num_sets c"
    and s: "c_num_sets c * c_associativity c * c_line_size c < 2 ^ 31"
    by (simp_all add: cache_wf_def)
  have sa: "0 < c_num_sets c * c_associativity c"
    using p by simp
  have "(c_num_sets c * c_associativity c) * 1
          \<le> (c_num_sets c * c_associativity c) * c_line_size c"
    using sa p(1) by (intro mult_left_mono) simp_all
  then have a: "c_num_sets c * c_associativity c < 2 ^ 31"
    using s by simp
  have "1 * c_line_size c \<le> (c_num_sets c * c_associativity c) * c_line_size c"
    using sa p(1) by (intro mult_right_mono) simp_all
  then have b: "c_line_size c < 2 ^ 31"
    using s by simp
  show ?thesis
    using wf a b by (simp add: cache_wf_def cache_shape_def)
qed

lemma shape_num_sets_small: "cache_shape c \<Longrightarrow> c_num_sets c < 2 ^ 31"
proof -
  assume sh: "cache_shape c"
  then have p: "0 < c_associativity c" "0 < c_num_sets c"
    and s: "c_num_sets c * c_associativity c < 2 ^ 31"
    by (simp_all add: cache_shape_def)
  have "c_num_sets c * 1 \<le> c_num_sets c * c_associativity c"
    using p by (intro mult_left_mono) simp_all
  then show ?thesis using s by simp
qed

lemma shape_set_index: "cache_shape c \<Longrightarrow> set_index_of c addr < nat (c_num_sets c)"
  using set_index_bound [of c addr] shape_num_sets_small [of c] by (simp add: cache_shape_def)

text \<open>
  The set index and the tag in numbers: the line address is the address divided by the
  line size, the set index its remainder and the tag its quotient by the number of sets.
\<close>

lemma shape_geometry:
  assumes "cache_shape c"
  shows "set_index_of c addr = unat addr div nat (c_line_size c) mod nat (c_num_sets c)"
    and "unat (tag_of c addr) = unat addr div nat (c_line_size c) div nat (c_num_sets c)"
proof -
  have l: "unat (word_of_int (c_line_size c) :: u64) = nat (c_line_size c)"
    using assms by (intro unat_word_of_int_small) (simp_all add: cache_shape_def)
  have n: "unat (word_of_int (c_num_sets c) :: u64) = nat (c_num_sets c)"
    using assms shape_num_sets_small [OF assms]
    by (intro unat_word_of_int_small) (simp_all add: cache_shape_def)
  show "set_index_of c addr = unat addr div nat (c_line_size c) mod nat (c_num_sets c)"
    by (simp add: set_index_of_def line_addr_of_def unat_mod unat_div l n)
  show "unat (tag_of c addr) = unat addr div nat (c_line_size c) div nat (c_num_sets c)"
    by (simp add: tag_of_def line_addr_of_def unat_div l n)
qed

lemma shape_rows:
  assumes "cache_shape c"
  shows "length (c_valid c ! set_index_of c a) = nat (c_associativity c)"
    and "length (c_tags c ! set_index_of c a) = nat (c_associativity c)"
    and "set_index_of c a < length (c_valid c)"
    and "set_index_of c a < length (c_tags c)"
  using assms shape_set_index [OF assms, of a]
  by (simp_all add: cache_shape_def list_all_length)

lemma shape_victim_in_range:
  assumes "cache_shape c"
  shows "victim_way c a < nat (c_associativity c)"
proof -
  have "0 < nat (c_associativity c)"
    using assms by (simp add: cache_shape_def)
  then show ?thesis
    by (simp add: victim_way_def ways_of_def lru_victim_in_range)
qed

lemma cache_access_shape:
  assumes "cache_shape c"
  shows "cache_shape (snd (cache_access c a w))"
proof (cases "lookup_way c a")
  case None
  show ?thesis
    using assms unfolding cache_access_miss [OF None]
    by (simp add: cache_shape_def list_all_update_row)
next
  case (Some i)
  show ?thesis
    using assms unfolding cache_access_hit [OF Some]
    by (simp add: cache_shape_def)
qed

lemma cache_accesses_shape: "cache_shape c \<Longrightarrow> cache_shape (cache_accesses c ops)"
  by (induction ops arbitrary: c) (simp_all add: cache_access_shape)






text \<open>
  The victim loop over valid ways keeps the first way whose counter is smallest: the
  counters before it are strictly larger, those after it not smaller.
\<close>

lemma lru_victim_first:
  assumes "\<forall>i\<in>set ways. valid ! i"
  shows "(lru_victim valid lru base ways m v = v \<and> (\<forall>i\<in>set ways. m \<le> lru ! (base + i)))
       \<or> (\<exists>pre post. ways = pre @ lru_victim valid lru base ways m v # post
            \<and> lru ! (base + lru_victim valid lru base ways m v) < m
            \<and> (\<forall>i\<in>set pre. lru ! (base + lru_victim valid lru base ways m v) < lru ! (base + i))
            \<and> (\<forall>i\<in>set post. lru ! (base + lru_victim valid lru base ways m v) \<le> lru ! (base + i)))"
  using assms
proof (induction ways arbitrary: m v)
  case Nil
  then show ?case by simp
next
  case (Cons i ways)
  have valid: "valid ! i" and rest: "\<forall>j\<in>set ways. valid ! j"
    using Cons.prems by simp_all
  show ?case
  proof (cases "lru ! (base + i) < m")
    case True
    let ?r = "lru_victim valid lru base ways (lru ! (base + i)) i"
    have step: "lru_victim valid lru base (i # ways) m v = ?r"
      using valid True by simp
    from Cons.IH [OF rest, of "lru ! (base + i)" i]
    consider (a) "?r = i" "\<forall>j\<in>set ways. lru ! (base + i) \<le> lru ! (base + j)"
      | (b) pre post where "ways = pre @ ?r # post" "lru ! (base + ?r) < lru ! (base + i)"
          "\<forall>j\<in>set pre. lru ! (base + ?r) < lru ! (base + j)"
          "\<forall>j\<in>set post. lru ! (base + ?r) \<le> lru ! (base + j)"
      by blast
    then show ?thesis
    proof cases
      case a
      have "i # ways = [] @ ?r # ways" using a(1) by simp
      moreover have "lru ! (base + ?r) < m" using a(1) True by simp
      moreover have "\<forall>j\<in>set ways. lru ! (base + ?r) \<le> lru ! (base + j)"
        using a by simp
      ultimately show ?thesis
        unfolding step by (intro disjI2 exI conjI) (assumption | simp)+
    next
      case b
      have "i # ways = (i # pre) @ ?r # post" using b(1) by simp
      moreover have "lru ! (base + ?r) < m" using b(2) True by (rule order.strict_trans)
      moreover have "\<forall>j\<in>set (i # pre). lru ! (base + ?r) < lru ! (base + j)"
        using b(2,3) by simp
      ultimately show ?thesis
        unfolding step using b(4) by (intro disjI2 exI conjI) (assumption | simp)+
    qed
  next
    case False
    let ?r = "lru_victim valid lru base ways m v"
    have step: "lru_victim valid lru base (i # ways) m v = ?r"
      using valid False by simp
    have mi: "m \<le> lru ! (base + i)" using False by (simp add: not_less)
    from Cons.IH [OF rest, of m v]
    consider (a) "?r = v" "\<forall>j\<in>set ways. m \<le> lru ! (base + j)"
      | (b) pre post where "ways = pre @ ?r # post" "lru ! (base + ?r) < m"
          "\<forall>j\<in>set pre. lru ! (base + ?r) < lru ! (base + j)"
          "\<forall>j\<in>set post. lru ! (base + ?r) \<le> lru ! (base + j)"
      by blast
    then show ?thesis
    proof cases
      case a
      then show ?thesis unfolding step using mi by simp
    next
      case b
      have "i # ways = (i # pre) @ ?r # post" using b(1) by simp
      moreover have "lru ! (base + ?r) < lru ! (base + i)"
        using b(2) mi by (rule order.strict_trans2)
      then have "\<forall>j\<in>set (i # pre). lru ! (base + ?r) < lru ! (base + j)"
        using b(3) by simp
      ultimately show ?thesis
        unfolding step using b(2,4) by (intro disjI2 exI conjI) (assumption | simp)+
    qed
  qed
qed

lemma upt_split:
  assumes "[0..<n] = pre @ r # post"
  shows "set pre = {0..<r}" and "r < n" and "set post = {Suc r..<n}"
proof -
  have len: "length pre < n"
    using arg_cong [OF assms, of length] by simp
  have "[0..<n] ! length pre = r" unfolding assms by simp
  then have r: "length pre = r" using len by simp
  show "r < n" using len r by simp
  have "pre = take r [0..<n]" unfolding assms using r by simp
  then show "set pre = {0..<r}" using \<open>r < n\<close> by (simp add: take_upt)
  have "post = drop (Suc r) [0..<n]" unfolding assms using r by simp
  then show "set post = {Suc r..<n}" by simp
qed

lemma lru_victim_first_min:
  assumes valid: "\<forall>i<n. valid ! i" and n: "0 < n"
  shows "lru_victim valid lru base [0..<n] 0xFFFFFFFFFFFFFFFF 0 < n"
    and "\<forall>i<n. lru ! (base + lru_victim valid lru base [0..<n] 0xFFFFFFFFFFFFFFFF 0)
                  \<le> lru ! (base + i)"
    and "\<forall>i<lru_victim valid lru base [0..<n] 0xFFFFFFFFFFFFFFFF 0.
            lru ! (base + lru_victim valid lru base [0..<n] 0xFFFFFFFFFFFFFFFF 0)
              < lru ! (base + i)"
proof -
  let ?r = "lru_victim valid lru base [0..<n] 0xFFFFFFFFFFFFFFFF 0"
  have top: "x \<le> (0xFFFFFFFFFFFFFFFF :: u64)" for x
  proof -
    have "(0xFFFFFFFFFFFFFFFF :: u64) = - 1" by simp
    then show ?thesis by (simp only: word_order.extremum)
  qed
  have all: "\<forall>i\<in>set [0..<n]. valid ! i" using valid by simp
  from lru_victim_first [OF all, of lru base "0xFFFFFFFFFFFFFFFF" 0]
  consider (a) "?r = 0" "\<forall>i\<in>set [0..<n]. 0xFFFFFFFFFFFFFFFF \<le> lru ! (base + i)"
    | (b) pre post where "[0..<n] = pre @ ?r # post"
        "\<forall>i\<in>set pre. lru ! (base + ?r) < lru ! (base + i)"
        "\<forall>i\<in>set post. lru ! (base + ?r) \<le> lru ! (base + i)"
    by (elim disjE exE conjE) auto
  then have "?r < n \<and> (\<forall>i<n. lru ! (base + ?r) \<le> lru ! (base + i))
             \<and> (\<forall>i<?r. lru ! (base + ?r) < lru ! (base + i))"
  proof cases
    case a
    have "lru ! (base + ?r) \<le> lru ! (base + i)" if "i < n" for i
    proof -
      have "0xFFFFFFFFFFFFFFFF \<le> lru ! (base + i)" using a(2) that by simp
      with top [of "lru ! (base + ?r)"] show ?thesis by (rule order.trans)
    qed
    then show ?thesis using a(1) n by simp
  next
    case b
    note sp = upt_split [OF b(1)]
    have le: "lru ! (base + ?r) \<le> lru ! (base + i)" if i: "i < n" for i
    proof -
      consider "i \<in> set pre" | "i = ?r" | "i \<in> set post"
        using i sp(1,3) by (cases "i < ?r"; cases "i = ?r") auto
      then show ?thesis
        using b(2,3) by cases (auto intro: less_imp_le)
    qed
    have lt: "lru ! (base + ?r) < lru ! (base + i)" if "i < ?r" for i
      using that b(2) sp(1) by simp
    show ?thesis using sp(2) le lt by simp
  qed
  then show "?r < n" and "\<forall>i<n. lru ! (base + ?r) \<le> lru ! (base + i)"
    and "\<forall>i<?r. lru ! (base + ?r) < lru ! (base + i)"
    by simp_all
qed

text \<open>
  Claim C4, as the code has it. When \<open>cache_access\<close> misses in a cache of the allocated
  shape, the set searched is the line address (address divided by line size) modulo the
  number of sets and the tag its quotient. The victim way is way 0 for a direct-mapped or
  fully-associative cache, whatever the valid bits. For a set-associative cache it is the
  first invalid way of the set if there is one; otherwise it is the first way whose LRU
  counter is smallest in the set: no counter of the set is below the victim's, and every
  counter before the victim is strictly above it. The tag is installed in the victim way
  with the valid bit set, no other way of any set changes, the miss counter goes up by one
  and the call returns the miss penalty.
\<close>

theorem cache_miss_victim:
  assumes shape: "cache_shape c" and miss: "lookup_way c addr = None"
  shows "fst (cache_access c addr w) = c_miss_penalty c
    \<and> c_misses (snd (cache_access c addr w)) = c_misses c + 1
    \<and> set_index_of c addr = unat addr div nat (c_line_size c) mod nat (c_num_sets c)
    \<and> unat (tag_of c addr) = unat addr div nat (c_line_size c) div nat (c_num_sets c)
    \<and> victim_way c addr < nat (c_associativity c)
    \<and> (c_type c \<noteq> CACHE_SET_ASSOC \<longrightarrow> victim_way c addr = 0)
    \<and> (c_type c = CACHE_SET_ASSOC \<longrightarrow>
         (case first_invalid (c_valid c ! set_index_of c addr) of
            Some k \<Rightarrow>
              victim_way c addr = k
              \<and> \<not> c_valid c ! set_index_of c addr ! k
              \<and> (\<forall>i < k. c_valid c ! set_index_of c addr ! i)
          | None \<Rightarrow>
              (\<forall>i < nat (c_associativity c). c_valid c ! set_index_of c addr ! i)
              \<and> (\<forall>i < nat (c_associativity c).
                    c_lru_counters c ! (set_index_of c addr * nat (c_associativity c)
                                         + victim_way c addr)
                    \<le> c_lru_counters c ! (set_index_of c addr * nat (c_associativity c) + i))
              \<and> (\<forall>i < victim_way c addr.
                    c_lru_counters c ! (set_index_of c addr * nat (c_associativity c)
                                         + victim_way c addr)
                    < c_lru_counters c ! (set_index_of c addr * nat (c_associativity c) + i))))
    \<and> c_valid (snd (cache_access c addr w)) =
         (c_valid c)[set_index_of c addr :=
            (c_valid c ! set_index_of c addr)[victim_way c addr := True]]
    \<and> c_tags (snd (cache_access c addr w)) =
         (c_tags c)[set_index_of c addr :=
            (c_tags c ! set_index_of c addr)[victim_way c addr := tag_of c addr]]
    \<and> c_valid (snd (cache_access c addr w)) ! set_index_of c addr ! victim_way c addr
    \<and> c_tags (snd (cache_access c addr w)) ! set_index_of c addr ! victim_way c addr
         = tag_of c addr"
proof -
  let ?s = "set_index_of c addr" and ?v = "victim_way c addr"
  let ?n = "nat (c_associativity c)"
  have v: "?v < ?n" by (rule shape_victim_in_range [OF shape])
  have n: "0 < ?n" using shape by (simp add: cache_shape_def)
  have rows: "length (c_valid c ! ?s) = ?n" "length (c_tags c ! ?s) = ?n"
    "?s < length (c_valid c)" "?s < length (c_tags c)"
    using shape_rows [OF shape, of addr] by simp_all
  note geo = shape_geometry [OF shape, of addr]
  have other: "c_type c \<noteq> CACHE_SET_ASSOC \<longrightarrow> ?v = 0"
    by (simp add: victim_way_def)
  have lru: "case first_invalid (c_valid c ! ?s) of
            Some k \<Rightarrow> ?v = k \<and> \<not> c_valid c ! ?s ! k \<and> (\<forall>i < k. c_valid c ! ?s ! i)
          | None \<Rightarrow>
              (\<forall>i < ?n. c_valid c ! ?s ! i)
              \<and> (\<forall>i < ?n. c_lru_counters c ! (?s * ?n + ?v)
                              \<le> c_lru_counters c ! (?s * ?n + i))
              \<and> (\<forall>i < ?v. c_lru_counters c ! (?s * ?n + ?v)
                              < c_lru_counters c ! (?s * ?n + i))"
    if sa: "c_type c = CACHE_SET_ASSOC"
  proof (cases "first_invalid (c_valid c ! ?s)")
    case (Some k)
    then have f: "find (\<lambda>i. \<not> (c_valid c ! ?s) ! i) [0..<?n] = Some k"
      by (simp add: first_invalid_def rows)
    then have "find (\<lambda>i. \<not> (c_valid c ! ?s) ! i) (ways_of c) = Some k"
      by (simp add: ways_of_def)
    from lru_victim_invalid [OF this] have vk: "?v = k"
      using sa by (simp add: victim_way_def)
    obtain j where j: "j < ?n" "[0..<?n] ! j = k" "\<not> (c_valid c ! ?s) ! ([0..<?n] ! j)"
      "\<forall>i<j. (c_valid c ! ?s) ! ([0..<?n] ! i)"
      using f by (auto simp add: find_Some_iff)
    have jk: "j = k" using j(1,2) by simp
    have first: "\<forall>i < k. c_valid c ! ?s ! i"
    proof (intro allI impI)
      fix i assume "i < k"
      then have "i < j" and "i < ?n" using jk j(1) by simp_all
      then show "c_valid c ! ?s ! i" using j(4) by auto
    qed
    have "\<not> c_valid c ! ?s ! k" using j(2,3) by simp
    then show ?thesis using Some vk first by simp
  next
    case None
    then have all: "\<forall>i < ?n. (c_valid c ! ?s) ! i"
      by (auto simp add: first_invalid_def rows find_None_iff)
    have v_eq: "?v = lru_victim (c_valid c ! ?s) (c_lru_counters c) (?s * ?n) [0..<?n]
                       0xFFFFFFFFFFFFFFFF 0"
      using sa by (simp add: victim_way_def ways_of_def)
    note m = lru_victim_first_min [OF all n, of "c_lru_counters c" "?s * ?n"]
    show ?thesis
      using None all m(2,3) unfolding v_eq [symmetric] by simp
  qed
  have c1: "fst (cache_access c addr w) = c_miss_penalty c"
    and c2: "c_misses (snd (cache_access c addr w)) = c_misses c + 1"
    and c3: "c_valid (snd (cache_access c addr w)) =
         (c_valid c)[?s := (c_valid c ! ?s)[?v := True]]"
    and c4: "c_tags (snd (cache_access c addr w)) =
         (c_tags c)[?s := (c_tags c ! ?s)[?v := tag_of c addr]]"
    by (simp_all add: cache_access_miss [OF miss])
  have c5: "c_valid (snd (cache_access c addr w)) ! ?s ! ?v"
    and c6: "c_tags (snd (cache_access c addr w)) ! ?s ! ?v = tag_of c addr"
    using v rows by (simp_all add: c3 c4)
  from c1 c2 geo v other lru c3 c4 c5 c6 show ?thesis
    by (intro conjI impI) (assumption | simp)+
qed

lemma warm_two_way_eq:
  "warm_two_way t =
     (two_way_cache t)
       \<lparr>c_accesses := 1, c_misses := 1, c_valid := [[True, False]], c_tags := [[0, 0]],
        c_lru_counters := (if t = CACHE_SET_ASSOC then [1, 0] else [])\<rparr>"
  by (simp add: warm_two_way_def cache_access_def lookup_way_def set_index_of_def tag_of_def
      line_addr_of_def ways_of_def victim_way_def two_way_cache_def upt_rec)

lemma warm_two_way_miss: "lookup_way (warm_two_way t) 64 = None"
  unfolding warm_two_way_eq
  by (simp add: lookup_way_def set_index_of_def tag_of_def line_addr_of_def
      ways_of_def two_way_cache_def upt_rec)

lemma warm_two_way_wf: "cache_wf (warm_two_way t)"
  unfolding warm_two_way_def
  by (rule cache_access_wf) (simp add: cache_wf_def two_way_cache_def)

lemma warm_two_way_geometry:
  "set_index_of (warm_two_way t) 64 = 0" "tag_of (warm_two_way t) 64 = 1"
  "c_miss_penalty (warm_two_way t) = 10"
  "c_valid (warm_two_way t) = [[True, False]]" "c_tags (warm_two_way t) = [[0, 0]]"
  unfolding warm_two_way_eq
  by (simp_all add: set_index_of_def tag_of_def line_addr_of_def two_way_cache_def)

lemma aged_two_way_eq:
  "aged_two_way =
     (two_way_cache CACHE_SET_ASSOC)
       \<lparr>c_accesses := 3, c_misses := 2, c_hits := 1, c_valid := [[True, True]],
        c_tags := [[0, 1]], c_lru_counters := [3, 2]\<rparr>"
  by (simp add: aged_two_way_def cache_access_def lookup_way_def set_index_of_def tag_of_def
      line_addr_of_def ways_of_def victim_way_def two_way_cache_def upt_rec)

lemma aged_two_way_shape: "cache_shape aged_two_way"
  unfolding aged_two_way_def
  by (rule cache_accesses_shape) (simp add: cache_shape_def two_way_cache_def)

lemma aged_two_way_miss: "lookup_way aged_two_way 128 = None"
  unfolding aged_two_way_eq
  by (simp add: lookup_way_def set_index_of_def tag_of_def line_addr_of_def
      ways_of_def two_way_cache_def upt_rec)

lemma aged_two_way_geometry:
  "set_index_of aged_two_way 128 = 0" "tag_of aged_two_way 128 = 2"
  "c_miss_penalty aged_two_way = 10" "c_type aged_two_way = CACHE_SET_ASSOC"
  "c_associativity aged_two_way = 2"
  "c_valid aged_two_way = [[True, True]]" "c_tags aged_two_way = [[0, 1]]"
  "c_lru_counters aged_two_way = [3, 2]"
  unfolding aged_two_way_eq
  by (simp_all add: set_index_of_def tag_of_def line_addr_of_def two_way_cache_def)

theorem cache_miss_victim_witness:
  "cache_shape aged_two_way
   \<and> lookup_way aged_two_way 128 = None
   \<and> c_valid aged_two_way = [[True, True]]
   \<and> c_lru_counters aged_two_way = [3, 2]
   \<and> victim_way aged_two_way 128 = 1
   \<and> fst (cache_access aged_two_way 128 False) = 10
   \<and> c_valid (snd (cache_access aged_two_way 128 False)) = [[True, True]]
   \<and> c_tags (snd (cache_access aged_two_way 128 False)) = [[0, 2]]"
proof -
  note g = aged_two_way_geometry
  note t = cache_miss_victim [OF aged_two_way_shape aged_two_way_miss, of False]
  have fi: "first_invalid (c_valid aged_two_way ! set_index_of aged_two_way 128) = None"
    by (simp add: g first_invalid_def upt_rec)
  note l = t [THEN conjunct2, THEN conjunct2, THEN conjunct2, THEN conjunct2, THEN conjunct2,
      THEN conjunct2, THEN conjunct1, THEN mp, OF g(4), unfolded fi option.case]
  have lt: "victim_way aged_two_way 128 < 2"
    using t [THEN conjunct2, THEN conjunct2, THEN conjunct2, THEN conjunct2, THEN conjunct1]
    by (simp add: g)
  have "[3, 2 :: u64] ! (victim_way aged_two_way 128) \<le> [3, 2] ! 1"
    using l [THEN conjunct2, THEN conjunct1, THEN spec, of 1] by (simp add: g)
  then have v: "victim_way aged_two_way 128 = 1"
    using lt by (cases "victim_way aged_two_way 128") simp_all
  have r: "fst (cache_access aged_two_way 128 False) = c_miss_penalty aged_two_way"
    "c_valid (snd (cache_access aged_two_way 128 False)) =
       (c_valid aged_two_way)[set_index_of aged_two_way 128 :=
          (c_valid aged_two_way ! set_index_of aged_two_way 128)
            [victim_way aged_two_way 128 := True]]"
    "c_tags (snd (cache_access aged_two_way 128 False)) =
       (c_tags aged_two_way)[set_index_of aged_two_way 128 :=
          (c_tags aged_two_way ! set_index_of aged_two_way 128)
            [victim_way aged_two_way 128 := tag_of aged_two_way 128]]"
    using t by blast+
  show ?thesis
    using aged_two_way_shape aged_two_way_miss by (simp add: r g v)
qed

text \<open>
  The victim rule as C4 states it fails for a fully-associative cache: with way 0 valid
  and way 1 invalid, a miss replaces way 0 and leaves way 1 invalid.
\<close>

theorem full_assoc_victim_is_way_0:
  "cache_create True CACHE_FULL_ASSOC 128 64 2 = Constructed (two_way_cache CACHE_FULL_ASSOC)
   \<and> cache_wf (warm_two_way CACHE_FULL_ASSOC)
   \<and> lookup_way (warm_two_way CACHE_FULL_ASSOC) 64 = None
   \<and> first_invalid (c_valid (warm_two_way CACHE_FULL_ASSOC) ! 0) = Some 1
   \<and> victim_way (warm_two_way CACHE_FULL_ASSOC) 64 = 0
   \<and> c_valid (snd (cache_access (warm_two_way CACHE_FULL_ASSOC) 64 False)) = [[True, False]]
   \<and> c_tags (snd (cache_access (warm_two_way CACHE_FULL_ASSOC) 64 False)) = [[1, 0]]"
proof -
  have mk: "cache_create True CACHE_FULL_ASSOC 128 64 2
              = Constructed (two_way_cache CACHE_FULL_ASSOC)"
    by (simp add: cache_create_def c_div_def two_way_cache_def numeral_2_eq_2)
  have fi: "first_invalid (c_valid (warm_two_way CACHE_FULL_ASSOC) ! 0) = Some 1"
    unfolding warm_two_way_eq by (simp add: first_invalid_def two_way_cache_def upt_rec)
  have v: "victim_way (warm_two_way CACHE_FULL_ASSOC) 64 = 0"
    unfolding warm_two_way_eq by (simp add: victim_way_def two_way_cache_def)
  show ?thesis
    unfolding cache_access_miss [OF warm_two_way_miss]
    using mk fi warm_two_way_wf [of CACHE_FULL_ASSOC] warm_two_way_miss [of CACHE_FULL_ASSOC]
    by (simp add: v warm_two_way_geometry)
qed

lemma resident_hit:
  assumes "resident c a"
  shows "c_misses (snd (cache_access c a w)) = c_misses c"
    and "resident (snd (cache_access c a w)) a"
proof -
  obtain i where i: "lookup_way c a = Some i"
    using assms by (auto simp add: resident_def)
  show "c_misses (snd (cache_access c a w)) = c_misses c"
    by (simp add: cache_access_hit [OF i])
  have "lookup_way (snd (cache_access c a w)) a = Some i"
    using i unfolding cache_access_hit [OF i]
    by (simp add: lookup_way_def set_index_of_def tag_of_def line_addr_of_def ways_of_def)
  then show "resident (snd (cache_access c a w)) a"
    by (simp add: resident_def)
qed

lemma repeated_hits:
  "resident c a \<Longrightarrow> c_misses (cache_accesses c (map (Pair a) ws)) = c_misses c"
  by (induction ws arbitrary: c) (simp_all add: resident_hit)

lemma resident_way:
  assumes "resident c a"
  shows "the (lookup_way c a) < nat (c_associativity c)"
    and "c_tags c ! set_index_of c a ! the (lookup_way c a) = tag_of c a"
proof -
  obtain i where i: "lookup_way c a = Some i"
    using assms by (auto simp add: resident_def)
  from find_way_Some [OF i [unfolded lookup_way_def]]
  show "the (lookup_way c a) < nat (c_associativity c)"
    and "c_tags c ! set_index_of c a ! the (lookup_way c a) = tag_of c a"
    by (simp_all add: i ways_of_def)
qed

lemma set_too_small:
  assumes len: "length ops = Suc (nat (c_associativity c))"
    and tags: "distinct (map (\<lambda>x. tag_of c (fst x)) ops)"
    and same: "\<forall>x\<in>set ops. set_index_of c (fst x) = s"
  shows "\<exists>x\<in>set ops. \<not> resident c (fst x)"
proof (rule ccontr)
  assume "\<not> (\<exists>x\<in>set ops. \<not> resident c (fst x))"
  then have res: "\<And>x. x \<in> set ops \<Longrightarrow> resident c (fst x)" by blast
  let ?f = "\<lambda>x. the (lookup_way c (fst x))"
  let ?g = "\<lambda>w. c_tags c ! s ! w"
  have "tag_of c (fst x) = ?g (?f x)" if "x \<in> set ops" for x
    using resident_way(2) [OF res [OF that]] same that by simp
  then have eq: "map (\<lambda>x. tag_of c (fst x)) ops = map ?g (map ?f ops)"
    by (simp add: comp_def)
  have "distinct (map ?g (map ?f ops))"
    using tags by (simp only: eq)
  then have d: "distinct (map ?f ops)"
    using distinct_map [of "(!) (c_tags c ! s)" "map (\<lambda>x. the (lookup_way c (fst x))) ops"] by blast
  have "set (map ?f ops) \<subseteq> {..<nat (c_associativity c)}"
    using res by (auto simp add: resident_way(1))
  then have "card (set (map ?f ops)) \<le> card {..<nat (c_associativity c)}"
    by (intro card_mono) simp_all
  moreover have "card (set (map ?f ops)) = length (map ?f ops)"
    using d by (rule distinct_card)
  ultimately show False
    using len by simp
qed

text \<open>
  Claim C5, as the code has it. In a well-formed cache, after an access to address \<open>a\<close>
  any further run of accesses to \<open>a\<close> (reads or writes) leaves the miss counter as it
  was. And of \<open>associativity + 1\<close> accesses to lines of one set with pairwise distinct
  tags, one line is evicted: it is resident right after its own access and no longer
  resident when the run ends.
\<close>

theorem cache_repeat_and_evict:
  assumes wf: "cache_wf c"
  shows "c_misses (cache_accesses (snd (cache_access c a w)) (map (Pair a) ws))
           = c_misses (snd (cache_access c a w))
    \<and> (length ops = Suc (nat (c_associativity c))
         \<and> distinct (map (\<lambda>x. tag_of c (fst x)) ops)
         \<and> (\<forall>x\<in>set ops. set_index_of c (fst x) = s)
       \<longrightarrow> (\<exists>k<length ops.
              resident (cache_accesses c (take (Suc k) ops)) (fst (ops ! k))
              \<and> \<not> resident (cache_accesses c ops) (fst (ops ! k))))"
proof (intro conjI impI)
  show "c_misses (cache_accesses (snd (cache_access c a w)) (map (Pair a) ws))
           = c_misses (snd (cache_access c a w))"
    by (rule repeated_hits) (rule cache_access_resident [OF wf])
next
  assume h: "length ops = Suc (nat (c_associativity c))
         \<and> distinct (map (\<lambda>x. tag_of c (fst x)) ops)
         \<and> (\<forall>x\<in>set ops. set_index_of c (fst x) = s)"
  let ?cf = "cache_accesses c ops"
  have "\<exists>x\<in>set ops. \<not> resident ?cf (fst x)"
    using h by (intro set_too_small [where s = s]) (simp_all add: cache_accesses_geometry)
  then obtain k where k: "k < length ops" and out: "\<not> resident ?cf (fst (ops ! k))"
    by (auto simp add: in_set_conv_nth)
  have "cache_accesses c (take (Suc k) ops)
          = snd (cache_access (cache_accesses c (take k ops)) (fst (ops ! k)) (snd (ops ! k)))"
    using k by (simp add: take_Suc_conv_app_nth cache_accesses_append)
  then have "resident (cache_accesses c (take (Suc k) ops)) (fst (ops ! k))"
    using cache_access_resident [OF cache_accesses_wf [OF wf]] by simp
  with k out show "\<exists>k<length ops.
              resident (cache_accesses c (take (Suc k) ops)) (fst (ops ! k))
              \<and> \<not> resident (cache_accesses c ops) (fst (ops ! k))"
    by blast
qed

lemma direct_cache_wf: "cache_wf direct_cache"
  by (simp add: cache_wf_def direct_cache_def)

lemma direct_cache_geometry:
  "set_index_of direct_cache 0 = 0" "set_index_of direct_cache 1 = 0"
  "set_index_of direct_cache 128 = 0"
  "tag_of direct_cache 0 = 0" "tag_of direct_cache 1 = 0" "tag_of direct_cache 128 = 1"
  "nat (c_associativity direct_cache) = 1"
  by (simp_all add: set_index_of_def tag_of_def line_addr_of_def direct_cache_def)

theorem cache_repeat_and_evict_witness:
  "cache_wf direct_cache
   \<and> c_misses (cache_accesses (snd (cache_access direct_cache 0 False)) (map (Pair 0) [False, True]))
       = c_misses (snd (cache_access direct_cache 0 False))
   \<and> length aliasing_pair = Suc (nat (c_associativity direct_cache))
   \<and> distinct (map (\<lambda>x. tag_of direct_cache (fst x)) aliasing_pair)
   \<and> list_all (\<lambda>x. set_index_of direct_cache (fst x) = 0) aliasing_pair
   \<and> (\<exists>k<length aliasing_pair.
         resident (cache_accesses direct_cache (take (Suc k) aliasing_pair)) (fst (aliasing_pair ! k))
         \<and> \<not> resident (cache_accesses direct_cache aliasing_pair) (fst (aliasing_pair ! k)))"
proof -
  have h: "length aliasing_pair = Suc (nat (c_associativity direct_cache))
         \<and> distinct (map (\<lambda>x. tag_of direct_cache (fst x)) aliasing_pair)
         \<and> (\<forall>x\<in>set aliasing_pair. set_index_of direct_cache (fst x) = 0)"
    by (simp add: aliasing_pair_def direct_cache_geometry)
  from cache_repeat_and_evict [OF direct_cache_wf, of 0 False "[False, True]" aliasing_pair 0]
  have "c_misses (cache_accesses (snd (cache_access direct_cache 0 False))
                    (map (Pair 0) [False, True]))
          = c_misses (snd (cache_access direct_cache 0 False))"
    and "\<exists>k<length aliasing_pair.
         resident (cache_accesses direct_cache (take (Suc k) aliasing_pair)) (fst (aliasing_pair ! k))
         \<and> \<not> resident (cache_accesses direct_cache aliasing_pair) (fst (aliasing_pair ! k))"
    using h by blast+
  then show ?thesis
    using h direct_cache_wf by (simp only: list_all_iff) blast
qed

text \<open>
  The eviction half of C5 as stated, for any \<open>associativity + 1\<close> distinct addresses of one
  set, fails when the addresses lie in one line: addresses 0 and 1 of the direct-mapped
  cache cost a single miss into an empty way, and both are resident afterwards.
\<close>

theorem same_line_no_eviction:
  "cache_wf direct_cache
   \<and> length same_line_pair = Suc (nat (c_associativity direct_cache))
   \<and> distinct (map fst same_line_pair)
   \<and> list_all (\<lambda>x. set_index_of direct_cache (fst x) = 0) same_line_pair
   \<and> c_valid direct_cache = [[False], [False]]
   \<and> c_misses (cache_accesses direct_cache same_line_pair) = 1
   \<and> c_valid (cache_accesses direct_cache same_line_pair) = [[True], [False]]
   \<and> resident (cache_accesses direct_cache same_line_pair) 0
   \<and> resident (cache_accesses direct_cache same_line_pair) 1"
proof -
  have first: "snd (cache_access direct_cache 0 False) =
      direct_cache\<lparr>c_accesses := 1, c_misses := 1, c_valid := [[True], [False]],
                    c_tags := [[0], [0]]\<rparr>"
    by (simp add: cache_access_def lookup_way_def set_index_of_def tag_of_def line_addr_of_def
        ways_of_def victim_way_def direct_cache_def)
  have second: "snd (cache_access (snd (cache_access direct_cache 0 False)) 1 False) =
      direct_cache\<lparr>c_accesses := 2, c_misses := 1, c_hits := 1, c_valid := [[True], [False]],
                    c_tags := [[0], [0]]\<rparr>"
    unfolding first
    by (simp add: cache_access_def lookup_way_def set_index_of_def tag_of_def line_addr_of_def
        ways_of_def direct_cache_def)
  have run: "cache_accesses direct_cache same_line_pair =
      direct_cache\<lparr>c_accesses := 2, c_misses := 1, c_hits := 1, c_valid := [[True], [False]],
                    c_tags := [[0], [0]]\<rparr>"
    by (simp add: same_line_pair_def second)
  show ?thesis
    unfolding run
    using direct_cache_wf
    by (simp add: same_line_pair_def direct_cache_geometry resident_def lookup_way_def
        set_index_of_def tag_of_def line_addr_of_def ways_of_def direct_cache_def)
qed

section \<open>Cache construction\<close>







section \<open>The branch predictor\<close>

lemma table_index_bound:
  assumes "0 < n" and "n < 2 ^ 31"
  shows "unat (ucast (x mod word_of_int n :: u64) :: u32) < nat n"
proof -
  let ?n = "word_of_int n :: u64"
  have u: "unat ?n = nat n"
    using assms by (simp add: unat_word_of_int_small)
  then have "0 < unat ?n" using assms by simp
  then have "0 < ?n" by (simp add: word_less_nat_alt)
  then have "x mod ?n < ?n" by (rule word_mod_less_divisor)
  then have lt: "unat (x mod ?n) < nat n"
    using u by (simp add: word_less_nat_alt)
  have "unat (ucast (x mod ?n) :: u32) = take_bit 32 (unat (x mod ?n))"
    by (simp add: unsigned_ucast_eq)
  also have "\<dots> \<le> unat (x mod ?n)" by (rule take_bit_nat_less_eq_self)
  finally show ?thesis using lt by simp
qed

lemma table_index_eq:
  assumes "0 < n" and "n < 2 ^ 31"
  shows "unat (ucast (x mod word_of_int n :: u64) :: u32) = unat x mod nat n"
proof -
  let ?n = "word_of_int n :: u64"
  have u: "unat ?n = nat n"
    using assms by (simp add: unat_word_of_int_small)
  have m: "unat (x mod ?n) = unat x mod nat n"
    by (simp add: unat_mod u)
  have "unat x mod nat n < nat n"
    using assms by simp
  also have "nat n < 2 ^ 32"
    using assms by simp
  finally have "take_bit 32 (unat x mod nat n) = unat x mod nat n"
    by (simp add: take_bit_nat_eq_self)
  then show ?thesis
    by (simp add: unsigned_ucast_eq m)
qed

lemma pht_index_eq:
  assumes "bp_wf bp"
  shows "bp_type bp = PREDICTOR_BIMODAL \<longrightarrow>
           pht_index bp pc = unat pc mod nat (bp_pht_size bp)"
    and "bp_type bp = PREDICTOR_GSHARE \<longrightarrow>
           pht_index bp pc = unat (pc XOR ucast (bp_bhr bp)) mod nat (bp_pht_size bp)"
  using assms
  by (simp_all add: bp_wf_def pht_index_def bimodal_index_def gshare_index_def table_index_eq)

lemma pht_index_bound: "bp_wf bp \<Longrightarrow> pht_index bp pc < length (bp_pht bp)"
  by (simp add: bp_wf_def pht_index_def bimodal_index_def gshare_index_def table_index_bound)

lemma pht_step_saturates:
  assumes "c \<le> 3"
  shows "pht_step taken c \<le> 3"
    and "unat (pht_step taken c) = (if taken then min 3 (unat c + 1) else unat c - 1)"
proof -
  have c: "unat c \<le> 3" using assms by (simp add: word_le_nat_alt)
  have inc: "unat (c + 1) = unat c + 1" if "c < 3"
  proof -
    have "unat c < 3" using that by (simp add: word_less_nat_alt)
    then show ?thesis by (simp add: unat_word_ariths)
  qed
  have dec: "unat (c - 1) = unat c - 1" if "0 < c"
  proof -
    have "1 \<le> c" using that by (simp add: word_le_nat_alt word_less_nat_alt)
    then show ?thesis by (simp add: unat_sub)
  qed
  show "unat (pht_step taken c) = (if taken then min 3 (unat c + 1) else unat c - 1)"
    using c inc dec by (auto simp add: pht_step_def word_less_nat_alt not_less)
  then have "unat (pht_step taken c) \<le> 3"
    using c by (cases taken) simp_all
  then show "pht_step taken c \<le> 3"
    by (simp add: word_le_nat_alt)
qed

lemma history_mask: "(x :: u32) AND word_of_int (2 ^ n - 1) = take_bit n x"
proof -
  have "(word_of_int (2 ^ n - 1) :: u32) = mask n"
    by (simp add: mask_eq_exp_minus_1)
  then show ?thesis by (simp add: take_bit_eq_mask)
qed

lemma bp_update_correct:
  "bp_correct (bp_update bp pc taken predicted)
     = (if taken = predicted then bp_correct bp + 1 else bp_correct bp)"
  by (cases "bp_type bp") (simp_all add: bp_update_def Let_def)

lemma bp_update_pht:
  "bp_pht (bp_update bp pc taken predicted)
     = (if bp_type bp = PREDICTOR_BIMODAL \<or> bp_type bp = PREDICTOR_GSHARE
        then (bp_pht bp)[pht_index bp pc := pht_step taken (bp_pht bp ! pht_index bp pc)]
        else bp_pht bp)"
  by (cases "bp_type bp")
    (simp_all add: bp_update_def pht_index_def bimodal_index_def gshare_index_def Let_def)

lemma bp_update_bhr:
  "bp_bhr (bp_update bp pc taken predicted)
     = (if bp_type bp = PREDICTOR_GSHARE
        then take_bit (nat (bp_bhr_size bp)) (push_bit 1 (bp_bhr bp) OR (if taken then 1 else 0))
        else bp_bhr bp)"
proof (cases "bp_type bp = PREDICTOR_GSHARE")
  case True
  have "bp_bhr (bp_update bp pc taken predicted)
          = (push_bit 1 (bp_bhr bp) OR (if taken then 1 else 0))
              AND word_of_int (2 ^ nat (bp_bhr_size bp) - 1)"
    using True by (simp add: bp_update_def Let_def)
  then show ?thesis
    using True by (simp only: history_mask simp_thms if_True)
next
  case False
  then show ?thesis
    by (cases "bp_type bp") (simp_all add: bp_update_def Let_def)
qed

text \<open>
  Claim C6. For a well-formed predictor, \<open>bp_update(pc, taken, predicted)\<close> adds one to the
  correct-predictions counter exactly when \<open>taken\<close> equals \<open>predicted\<close> and leaves it alone
  otherwise. The indexed table entry is entry \<open>pc mod pht_size\<close> for the bimodal policy and
  entry \<open>(pc xor bhr) mod pht_size\<close>, with the history register as it is before the call,
  for gshare. For the bimodal and gshare policies that entry, and no other,
  steps up when taken and down when not taken, saturating: an entry within 0 to 3 becomes
  \<open>min 3 (entry + 1)\<close>, respectively \<open>entry - 1\<close> stopping at 0, and a table within 0 to 3
  stays so. For gshare the history register becomes the old one shifted left by one with
  the outcome as its low bit, cut to the configured width; the other policies leave the
  history, and the always-taken and always-not-taken policies the table, unchanged.
\<close>

theorem bp_update_effect:
  assumes wf: "bp_wf bp"
  shows "(bp_correct (bp_update bp pc taken predicted) = bp_correct bp + 1
            \<longleftrightarrow> taken = predicted)
    \<and> (taken \<noteq> predicted \<longrightarrow> bp_correct (bp_update bp pc taken predicted) = bp_correct bp)
    \<and> (bp_type bp = PREDICTOR_BIMODAL \<longrightarrow>
          pht_index bp pc = unat pc mod nat (bp_pht_size bp))
    \<and> (bp_type bp = PREDICTOR_GSHARE \<longrightarrow>
          pht_index bp pc = unat (pc XOR ucast (bp_bhr bp)) mod nat (bp_pht_size bp))
    \<and> (bp_type bp = PREDICTOR_BIMODAL \<or> bp_type bp = PREDICTOR_GSHARE \<longrightarrow>
          pht_index bp pc < length (bp_pht bp)
          \<and> bp_pht (bp_update bp pc taken predicted)
              = (bp_pht bp)[pht_index bp pc := pht_step taken (bp_pht bp ! pht_index bp pc)]
          \<and> (bp_pht bp ! pht_index bp pc \<le> 3 \<longrightarrow>
                unat (bp_pht (bp_update bp pc taken predicted) ! pht_index bp pc)
                  = (if taken then min 3 (unat (bp_pht bp ! pht_index bp pc) + 1)
                     else unat (bp_pht bp ! pht_index bp pc) - 1))
          \<and> (list_all (\<lambda>e. e \<le> 3) (bp_pht bp) \<longrightarrow>
                list_all (\<lambda>e. e \<le> 3) (bp_pht (bp_update bp pc taken predicted))))
    \<and> (bp_type bp = PREDICTOR_GSHARE \<longrightarrow>
          bp_bhr (bp_update bp pc taken predicted)
            = take_bit (nat (bp_bhr_size bp))
                (push_bit 1 (bp_bhr bp) OR (if taken then 1 else 0)))
    \<and> (bp_type bp \<noteq> PREDICTOR_GSHARE \<longrightarrow>
          bp_bhr (bp_update bp pc taken predicted) = bp_bhr bp)
    \<and> (bp_type bp = PREDICTOR_ALWAYS_TAKEN \<or> bp_type bp = PREDICTOR_ALWAYS_NOT_TAKEN \<longrightarrow>
          bp_pht (bp_update bp pc taken predicted) = bp_pht bp)"
proof -
  let ?i = "pht_index bp pc"
  have i: "?i < length (bp_pht bp)" by (rule pht_index_bound [OF wf])
  have sat: "unat ((bp_pht bp)[?i := pht_step taken (bp_pht bp ! ?i)] ! ?i)
               = (if taken then min 3 (unat (bp_pht bp ! ?i) + 1) else unat (bp_pht bp ! ?i) - 1)"
    if "bp_pht bp ! ?i \<le> 3"
    using i pht_step_saturates(2) [OF that, of taken] by simp
  have keep: "list_all (\<lambda>e. e \<le> 3) ((bp_pht bp)[?i := pht_step taken (bp_pht bp ! ?i)])"
    if all: "list_all (\<lambda>e. e \<le> 3) (bp_pht bp)"
  proof -
    have old: "bp_pht bp ! ?i \<le> 3"
      using all i by (simp add: list_all_length)
    have "(bp_pht bp)[?i := pht_step taken (bp_pht bp ! ?i)] ! k \<le> 3"
      if "k < length (bp_pht bp)" for k
      using that all pht_step_saturates(1) [OF old, of taken]
      by (cases "k = ?i") (simp_all add: list_all_length)
    then show ?thesis by (simp add: list_all_length)
  qed
  have count: "bp_correct bp + 1 \<noteq> bp_correct bp" by simp
  have c1: "bp_correct (bp_update bp pc taken predicted) = bp_correct bp + 1
            \<longleftrightarrow> taken = predicted"
    using count by (simp add: bp_update_correct)
  have c2: "taken \<noteq> predicted \<longrightarrow>
            bp_correct (bp_update bp pc taken predicted) = bp_correct bp"
    by (simp add: bp_update_correct)
  have t: "bp_pht (bp_update bp pc taken predicted)
              = (bp_pht bp)[?i := pht_step taken (bp_pht bp ! ?i)]"
    if "bp_type bp = PREDICTOR_BIMODAL \<or> bp_type bp = PREDICTOR_GSHARE"
    using that by (simp add: bp_update_pht)
  have h1: "bp_type bp = PREDICTOR_GSHARE \<longrightarrow>
          bp_bhr (bp_update bp pc taken predicted)
            = take_bit (nat (bp_bhr_size bp))
                (push_bit 1 (bp_bhr bp) OR (if taken then 1 else 0))"
  proof
    assume "bp_type bp = PREDICTOR_GSHARE"
    then show "bp_bhr (bp_update bp pc taken predicted)
            = take_bit (nat (bp_bhr_size bp))
                (push_bit 1 (bp_bhr bp) OR (if taken then 1 else 0))"
      by (simp only: bp_update_bhr if_True simp_thms)
  qed
  have h2: "bp_type bp \<noteq> PREDICTOR_GSHARE \<longrightarrow>
          bp_bhr (bp_update bp pc taken predicted) = bp_bhr bp"
  proof
    assume "bp_type bp \<noteq> PREDICTOR_GSHARE"
    then show "bp_bhr (bp_update bp pc taken predicted) = bp_bhr bp"
      by (simp only: bp_update_bhr if_False simp_thms)
  qed
  have a: "bp_type bp = PREDICTOR_ALWAYS_TAKEN \<or> bp_type bp = PREDICTOR_ALWAYS_NOT_TAKEN \<longrightarrow>
          bp_pht (bp_update bp pc taken predicted) = bp_pht bp"
    by (auto simp add: bp_update_pht)
  have tbl: "bp_type bp = PREDICTOR_BIMODAL \<or> bp_type bp = PREDICTOR_GSHARE \<longrightarrow>
          ?i < length (bp_pht bp)
          \<and> bp_pht (bp_update bp pc taken predicted)
              = (bp_pht bp)[?i := pht_step taken (bp_pht bp ! ?i)]
          \<and> (bp_pht bp ! ?i \<le> 3 \<longrightarrow>
                unat (bp_pht (bp_update bp pc taken predicted) ! ?i)
                  = (if taken then min 3 (unat (bp_pht bp ! ?i) + 1)
                     else unat (bp_pht bp ! ?i) - 1))
          \<and> (list_all (\<lambda>e. e \<le> 3) (bp_pht bp) \<longrightarrow>
                list_all (\<lambda>e. e \<le> 3) (bp_pht (bp_update bp pc taken predicted)))"
  proof
    assume ty: "bp_type bp = PREDICTOR_BIMODAL \<or> bp_type bp = PREDICTOR_GSHARE"
    show "?i < length (bp_pht bp)
          \<and> bp_pht (bp_update bp pc taken predicted)
              = (bp_pht bp)[?i := pht_step taken (bp_pht bp ! ?i)]
          \<and> (bp_pht bp ! ?i \<le> 3 \<longrightarrow>
                unat (bp_pht (bp_update bp pc taken predicted) ! ?i)
                  = (if taken then min 3 (unat (bp_pht bp ! ?i) + 1)
                     else unat (bp_pht bp ! ?i) - 1))
          \<and> (list_all (\<lambda>e. e \<le> 3) (bp_pht bp) \<longrightarrow>
                list_all (\<lambda>e. e \<le> 3) (bp_pht (bp_update bp pc taken predicted)))"
      unfolding t [OF ty] using i sat keep by blast
  qed
  note ix = pht_index_eq [OF wf, of pc]
  from c1 c2 ix tbl h1 h2 a show ?thesis by blast
qed

theorem bp_update_effect_witness:
  "bp_wf small_gshare
   \<and> pht_index small_gshare 5 = 2
   \<and> bp_correct (bp_update small_gshare 5 True True) = 1
   \<and> bp_pht (bp_update small_gshare 5 True True) = [2, 2, 3, 3]
   \<and> unat (bp_pht (bp_update small_gshare 5 True True) ! 2) = 3
   \<and> bp_bhr (bp_update small_gshare 5 True True) = 3
   \<and> bp_wf small_bimodal
   \<and> pht_index small_bimodal 7 = 3
   \<and> bp_correct (bp_update small_bimodal 7 False True) = 0
   \<and> bp_pht (bp_update small_bimodal 7 False True) = [2, 2, 0, 2]
   \<and> bp_pht (bp_update small_bimodal 6 False False) = [2, 2, 0, 3]
   \<and> bp_bhr (bp_update small_bimodal 7 False True) = 0"
proof -
  have wf: "bp_wf small_gshare"
    by (simp add: bp_wf_def small_gshare_def)
  have f: "bp_type small_gshare = PREDICTOR_GSHARE" "bp_pht small_gshare = [2, 2, 2, 3]"
    "bp_correct small_gshare = 0" "bp_bhr small_gshare = 3" "bp_bhr_size small_gshare = 2"
    "bp_pht_size small_gshare = 4"
    by (simp_all add: small_gshare_def)
  have t: "take_bit (nat 2) (push_bit 1 (3 :: u32) OR (if True then 1 else 0)) = 3"
    by (simp add: take_bit_eq_mod)
  note e = bp_update_effect [OF wf, of 5 True True]
  have ty: "bp_type small_gshare = PREDICTOR_BIMODAL \<or> bp_type small_gshare = PREDICTOR_GSHARE"
    by (simp add: f)
  have "pht_index small_gshare 5
          = unat ((5 :: u64) XOR ucast (bp_bhr small_gshare)) mod nat (bp_pht_size small_gshare)"
    by (rule e [THEN conjunct2, THEN conjunct2, THEN conjunct2, THEN conjunct1, THEN mp,
          OF f(1)])
  then have i: "pht_index small_gshare 5 = 2"
    by (simp add: f)
  have e1: "bp_correct (bp_update small_gshare 5 True True) = bp_correct small_gshare + 1"
    using e [THEN conjunct1] by simp
  have e2: "bp_pht (bp_update small_gshare 5 True True)
      = (bp_pht small_gshare)
          [pht_index small_gshare 5 := pht_step True (bp_pht small_gshare ! pht_index small_gshare 5)]"
    by (rule e [THEN conjunct2, THEN conjunct2, THEN conjunct2, THEN conjunct2, THEN conjunct1,
          THEN mp, OF ty, THEN conjunct2, THEN conjunct1])
  have e3: "bp_bhr (bp_update small_gshare 5 True True)
      = take_bit (nat (bp_bhr_size small_gshare))
          (push_bit 1 (bp_bhr small_gshare) OR (if True then 1 else 0))"
    by (rule e [THEN conjunct2, THEN conjunct2, THEN conjunct2, THEN conjunct2, THEN conjunct2,
          THEN conjunct1, THEN mp, OF f(1)])
  have p: "bp_pht (bp_update small_gshare 5 True True) = [2, 2, 3, 3]"
    unfolding e2 i f by (simp add: pht_step_def)
  have b: "bp_bhr (bp_update small_gshare 5 True True) = 3"
    unfolding e3 f by (rule t)
  have wfb: "bp_wf small_bimodal"
    by (simp add: bp_wf_def small_bimodal_def)
  have g: "bp_type small_bimodal = PREDICTOR_BIMODAL" "bp_pht small_bimodal = [2, 2, 0, 3]"
    "bp_correct small_bimodal = 0" "bp_bhr small_bimodal = 0" "bp_pht_size small_bimodal = 4"
    by (simp_all add: small_bimodal_def)
  have tyb: "bp_type small_bimodal = PREDICTOR_BIMODAL \<or> bp_type small_bimodal = PREDICTOR_GSHARE"
    and ng: "bp_type small_bimodal \<noteq> PREDICTOR_GSHARE"
    by (simp_all add: g)
  note d = bp_update_effect [OF wfb, of 7 False True]
  note d' = bp_update_effect [OF wfb, of 6 False False]
  have "pht_index small_bimodal 7 = unat (7 :: u64) mod nat (bp_pht_size small_bimodal)"
    by (rule d [THEN conjunct2, THEN conjunct2, THEN conjunct1, THEN mp, OF g(1)])
  then have j: "pht_index small_bimodal 7 = 3"
    by (simp add: g)
  have "pht_index small_bimodal 6 = unat (6 :: u64) mod nat (bp_pht_size small_bimodal)"
    by (rule d' [THEN conjunct2, THEN conjunct2, THEN conjunct1, THEN mp, OF g(1)])
  then have j': "pht_index small_bimodal 6 = 2"
    by (simp add: g)
  have d1: "bp_correct (bp_update small_bimodal 7 False True) = bp_correct small_bimodal"
    using d [THEN conjunct2, THEN conjunct1] by simp
  have d2: "bp_pht (bp_update small_bimodal 7 False True)
      = (bp_pht small_bimodal)
          [pht_index small_bimodal 7 := pht_step False (bp_pht small_bimodal ! pht_index small_bimodal 7)]"
    by (rule d [THEN conjunct2, THEN conjunct2, THEN conjunct2, THEN conjunct2, THEN conjunct1,
          THEN mp, OF tyb, THEN conjunct2, THEN conjunct1])
  have d2': "bp_pht (bp_update small_bimodal 6 False False)
      = (bp_pht small_bimodal)
          [pht_index small_bimodal 6 := pht_step False (bp_pht small_bimodal ! pht_index small_bimodal 6)]"
    by (rule d' [THEN conjunct2, THEN conjunct2, THEN conjunct2, THEN conjunct2, THEN conjunct1,
          THEN mp, OF tyb, THEN conjunct2, THEN conjunct1])
  have d3: "bp_bhr (bp_update small_bimodal 7 False True) = bp_bhr small_bimodal"
    by (rule d [THEN conjunct2, THEN conjunct2, THEN conjunct2, THEN conjunct2, THEN conjunct2,
          THEN conjunct2, THEN conjunct1, THEN mp, OF ng])
  have q: "bp_pht (bp_update small_bimodal 7 False True) = [2, 2, 0, 2]"
    unfolding d2 j g by (simp add: pht_step_def)
  have q': "bp_pht (bp_update small_bimodal 6 False False) = [2, 2, 0, 3]"
    unfolding d2' j' g by (simp add: pht_step_def)
  show ?thesis
    using wf i e1 p b wfb j d1 q q' d3 by (simp add: f g)
qed

section \<open>The out-of-order engine\<close>

text \<open>The concrete engines are the ones the constructor builds.\<close>

lemma concrete_engines_created:
  "tomasulo_create True 2 2 = Some fresh_engine"
  "map_option (\<lambda>cpu. cpu\<lparr>t_registers := [0, 0, 1, 2, 0, 0, 10, 20] @ replicate 24 0\<rparr>)
     (tomasulo_create True 3 4) = Some chain_engine"
  by (simp_all add: tomasulo_create_def fresh_engine_def chain_engine_def eval_nat_numeral)

lemma free_station_None:
  "free_station cpu = None \<longleftrightarrow> (\<forall>i < nat (t_rs_count cpu). rs_busy (t_rs cpu ! i))"
  by (auto simp add: free_station_def find_None_iff)

lemma free_station_Some:
  "free_station cpu = Some i \<longleftrightarrow>
     i < nat (t_rs_count cpu) \<and> \<not> rs_busy (t_rs cpu ! i) \<and> (\<forall>j<i. rs_busy (t_rs cpu ! j))"
  by (auto simp add: free_station_def find_Some_iff)

lemma issue_none: "free_station cpu = None \<Longrightarrow> tomasulo_issue cpu inst = (False, cpu)"
  by (simp add: tomasulo_issue_def)

lemma issue_some_fst: "free_station cpu = Some i \<Longrightarrow> fst (tomasulo_issue cpu inst)"
  by (simp add: tomasulo_issue_def Let_def)

lemma issue_some_rs:
  assumes "free_station cpu = Some i"
  shows "length (t_rs (snd (tomasulo_issue cpu inst))) = length (t_rs cpu)"
    and "j \<noteq> i \<Longrightarrow> t_rs (snd (tomasulo_issue cpu inst)) ! j = t_rs cpu ! j"
    and "i < length (t_rs cpu) \<Longrightarrow>
           rs_busy (t_rs (snd (tomasulo_issue cpu inst)) ! i)
           \<and> rs_op (t_rs (snd (tomasulo_issue cpu inst)) ! i) = di_type inst
           \<and> rs_dest (t_rs (snd (tomasulo_issue cpu inst)) ! i) = ucast (di_rd inst)"
  using assms by (simp_all add: tomasulo_issue_def Let_def)

lemma issue_some_rob:
  assumes "free_station cpu = Some i"
  shows "length (t_rob (snd (tomasulo_issue cpu inst))) = length (t_rob cpu)"
    and "j \<noteq> nat (t_rob_tail cpu) \<Longrightarrow> t_rob (snd (tomasulo_issue cpu inst)) ! j = t_rob cpu ! j"
    and "nat (t_rob_tail cpu) < length (t_rob cpu) \<Longrightarrow>
           t_rob (snd (tomasulo_issue cpu inst)) ! nat (t_rob_tail cpu) =
             (t_rob cpu ! nat (t_rob_tail cpu))
               \<lparr>rob_busy := True, rob_op := di_type inst, rob_dest := ucast (di_rd inst),
                rob_ready := False, rob_exception := False\<rparr>"
  using assms by (simp_all add: tomasulo_issue_def Let_def)

lemma issue_some_rest:
  assumes "free_station cpu = Some i"
  shows "t_reg_status (snd (tomasulo_issue cpu inst))
           = (t_reg_status cpu)[unat (di_rd inst) := word_of_int (t_rob_tail cpu + 1)]"
    and "t_rob_tail (snd (tomasulo_issue cpu inst)) = c_mod (t_rob_tail cpu + 1) (t_rob_size cpu)"
    and "t_instructions_issued (snd (tomasulo_issue cpu inst)) = t_instructions_issued cpu + 1"
    and "t_registers (snd (tomasulo_issue cpu inst)) = t_registers cpu"
    and "t_rob_head (snd (tomasulo_issue cpu inst)) = t_rob_head cpu"
  using assms by (simp_all add: tomasulo_issue_def Let_def)

lemma producer_tag_nonzero:
  assumes "0 \<le> k" and "k < n" and "n < 2 ^ 31"
  shows "(word_of_int (k + 1) :: u64) \<noteq> 0"
proof
  assume z: "(word_of_int (k + 1) :: u64) = 0"
  have "unat (word_of_int (k + 1) :: u64) = nat (k + 1)"
    using assms by (intro unat_word_of_int_small) simp_all
  then show False using z assms by simp
qed

text \<open>
  Claim C8. On a well-formed engine and an instruction whose register indices are below
  32, \<open>tomasulo_issue\<close> returns false exactly when every reservation station is busy, and
  then leaves the engine as it was. Otherwise it returns true: the first free station,
  and no other, is taken (busy, with the instruction's operation and destination); the
  reorder-buffer entry at the tail, and no other, is allocated busy and not ready; the
  destination register's status becomes that entry's identifier (tail index plus one,
  never the "no producer" value 0) and no other register's status changes; the tail moves
  on by one around the buffer, the issue counter goes up by one, and the register file and
  the head stay as they were.
\<close>

theorem tomasulo_issue_effect:
  assumes wf: "tomasulo_wf cpu"
    and regs: "di_rd inst < 32" "di_rs1 inst < 32" "di_rs2 inst < 32"
  shows "(\<not> fst (tomasulo_issue cpu inst)
            \<longleftrightarrow> (\<forall>i < nat (t_rs_count cpu). rs_busy (t_rs cpu ! i)))
    \<and> (\<not> fst (tomasulo_issue cpu inst) \<longrightarrow> snd (tomasulo_issue cpu inst) = cpu)
    \<and> (fst (tomasulo_issue cpu inst) \<longrightarrow>
         (\<exists>i < nat (t_rs_count cpu).
             \<not> rs_busy (t_rs cpu ! i) \<and> (\<forall>j<i. rs_busy (t_rs cpu ! j))
             \<and> rs_busy (t_rs (snd (tomasulo_issue cpu inst)) ! i)
             \<and> rs_op (t_rs (snd (tomasulo_issue cpu inst)) ! i) = di_type inst
             \<and> rs_dest (t_rs (snd (tomasulo_issue cpu inst)) ! i) = ucast (di_rd inst)
             \<and> (\<forall>j. j \<noteq> i \<longrightarrow> t_rs (snd (tomasulo_issue cpu inst)) ! j = t_rs cpu ! j))
         \<and> length (t_rs (snd (tomasulo_issue cpu inst))) = length (t_rs cpu)
         \<and> t_rob (snd (tomasulo_issue cpu inst)) ! nat (t_rob_tail cpu) =
             (t_rob cpu ! nat (t_rob_tail cpu))
               \<lparr>rob_busy := True, rob_op := di_type inst, rob_dest := ucast (di_rd inst),
                rob_ready := False, rob_exception := False\<rparr>
         \<and> (\<forall>j. j \<noteq> nat (t_rob_tail cpu) \<longrightarrow>
                t_rob (snd (tomasulo_issue cpu inst)) ! j = t_rob cpu ! j)
         \<and> length (t_rob (snd (tomasulo_issue cpu inst))) = length (t_rob cpu)
         \<and> t_reg_status (snd (tomasulo_issue cpu inst)) ! unat (di_rd inst)
             = word_of_int (t_rob_tail cpu + 1)
         \<and> (word_of_int (t_rob_tail cpu + 1) :: u64) \<noteq> 0
         \<and> (\<forall>r. r \<noteq> unat (di_rd inst) \<longrightarrow>
                t_reg_status (snd (tomasulo_issue cpu inst)) ! r = t_reg_status cpu ! r)
         \<and> t_rob_tail (snd (tomasulo_issue cpu inst)) = (t_rob_tail cpu + 1) mod t_rob_size cpu
         \<and> t_instructions_issued (snd (tomasulo_issue cpu inst)) = t_instructions_issued cpu + 1
         \<and> t_registers (snd (tomasulo_issue cpu inst)) = t_registers cpu
         \<and> t_rob_head (snd (tomasulo_issue cpu inst)) = t_rob_head cpu)"
proof (cases "free_station cpu")
  case None
  then show ?thesis
    by (simp add: issue_none free_station_None [symmetric])
next
  case (Some i)
  have i: "i < nat (t_rs_count cpu)" "\<not> rs_busy (t_rs cpu ! i)" "\<forall>j<i. rs_busy (t_rs cpu ! j)"
    using Some by (simp_all add: free_station_Some)
  have len: "i < length (t_rs cpu)" "nat (t_rob_tail cpu) < length (t_rob cpu)"
    using wf i by (simp_all add: tomasulo_wf_def)
  have rd: "unat (di_rd inst) < length (t_reg_status cpu)"
    using wf regs(1) by (simp add: tomasulo_wf_def word_less_nat_alt)
  have tag: "(word_of_int (t_rob_tail cpu + 1) :: u64) \<noteq> 0"
    using wf by (intro producer_tag_nonzero [where n = "t_rob_size cpu"])
      (simp_all add: tomasulo_wf_def)
  have tail: "c_mod (t_rob_tail cpu + 1) (t_rob_size cpu) = (t_rob_tail cpu + 1) mod t_rob_size cpu"
    using wf by (intro c_mod_nonneg) (simp_all add: tomasulo_wf_def)
  have not_all: "\<not> (\<forall>i < nat (t_rs_count cpu). rs_busy (t_rs cpu ! i))"
    using i by blast
  have station: "\<exists>i < nat (t_rs_count cpu).
             \<not> rs_busy (t_rs cpu ! i) \<and> (\<forall>j<i. rs_busy (t_rs cpu ! j))
             \<and> rs_busy (t_rs (snd (tomasulo_issue cpu inst)) ! i)
             \<and> rs_op (t_rs (snd (tomasulo_issue cpu inst)) ! i) = di_type inst
             \<and> rs_dest (t_rs (snd (tomasulo_issue cpu inst)) ! i) = ucast (di_rd inst)
             \<and> (\<forall>j. j \<noteq> i \<longrightarrow> t_rs (snd (tomasulo_issue cpu inst)) ! j = t_rs cpu ! j)"
    using i issue_some_rs(2) [OF Some] issue_some_rs(3) [OF Some len(1)] by blast
  show ?thesis
    using issue_some_fst [OF Some] not_all station issue_some_rs(1) [OF Some]
      issue_some_rob(1,2) [OF Some] issue_some_rob(3) [OF Some len(2)] rd tag tail
    by (simp add: issue_some_rest [OF Some])
qed

theorem tomasulo_issue_effect_witness:
  "tomasulo_wf fresh_engine \<and> tomasulo_wf full_engine
   \<and> di_rd add_r1_r2_r3 < 32 \<and> di_rs1 add_r1_r2_r3 < 32 \<and> di_rs2 add_r1_r2_r3 < 32
   \<and> fst (tomasulo_issue fresh_engine add_r1_r2_r3)
   \<and> t_reg_status (snd (tomasulo_issue fresh_engine add_r1_r2_r3)) ! 1 = 1
   \<and> t_rob_tail (snd (tomasulo_issue fresh_engine add_r1_r2_r3)) = 1
   \<and> \<not> fst (tomasulo_issue full_engine add_r1_r2_r3)
   \<and> snd (tomasulo_issue full_engine add_r1_r2_r3) = full_engine"
proof -
  have wf1: "tomasulo_wf fresh_engine"
    by (simp add: tomasulo_wf_def fresh_engine_def)
  have wf2: "tomasulo_wf full_engine"
    by (simp add: tomasulo_wf_def fresh_engine_def full_engine_def)
  have r: "di_rd add_r1_r2_r3 < 32" "di_rs1 add_r1_r2_r3 < 32" "di_rs2 add_r1_r2_r3 < 32"
    by (simp_all add: add_r1_r2_r3_def)
  note fresh = tomasulo_issue_effect [OF wf1 r]
  note full = tomasulo_issue_effect [OF wf2 r]
  have "\<not> rs_busy (t_rs fresh_engine ! 0)" and "0 < nat (t_rs_count fresh_engine)"
    by (simp_all add: fresh_engine_def zero_station_def)
  then have "\<not> (\<forall>i < nat (t_rs_count fresh_engine). rs_busy (t_rs fresh_engine ! i))"
    by blast
  then have issued: "fst (tomasulo_issue fresh_engine add_r1_r2_r3)"
    using fresh [THEN conjunct1] by blast
  note after = fresh [THEN conjunct2, THEN conjunct2, THEN mp, OF issued]
  have "t_reg_status (snd (tomasulo_issue fresh_engine add_r1_r2_r3)) ! unat (di_rd add_r1_r2_r3)
          = word_of_int (t_rob_tail fresh_engine + 1)"
    and "t_rob_tail (snd (tomasulo_issue fresh_engine add_r1_r2_r3))
          = (t_rob_tail fresh_engine + 1) mod t_rob_size fresh_engine"
    using after by simp_all
  then have status: "t_reg_status (snd (tomasulo_issue fresh_engine add_r1_r2_r3)) ! 1 = 1"
    and tail: "t_rob_tail (snd (tomasulo_issue fresh_engine add_r1_r2_r3)) = 1"
    by (simp_all add: fresh_engine_def add_r1_r2_r3_def)
  have "\<forall>i < nat (t_rs_count full_engine). rs_busy (t_rs full_engine ! i)"
    by (simp add: full_engine_def fresh_engine_def less_Suc_eq numeral_2_eq_2)
  then have refused: "\<not> fst (tomasulo_issue full_engine add_r1_r2_r3)"
    using full [THEN conjunct1] by blast
  then have same: "snd (tomasulo_issue full_engine add_r1_r2_r3) = full_engine"
    using full [THEN conjunct2, THEN conjunct1] by blast
  show ?thesis
    using wf1 wf2 r issued status tail refused same by simp
qed

lemma chain_round_is_fixed: "tomasulo_round chain_round = chain_round"
  by code_simp

text \<open>
  After the first round the engine of the commit-ordering scenario never changes again:
  the second instruction waits for a producer tag nothing clears, and the third
  instruction's entry is never marked ready.
\<close>

lemma chain_round_stays: "(tomasulo_round ^^ n) chain_round = chain_round"
  by (induction n) (simp_all add: chain_round_is_fixed)

text \<open>
  Claim C7 fails on the code. Issue \<open>add r1, r2, r3\<close>, \<open>add r4, r1, r2\<close> and
  \<open>add r5, r6, r7\<close> (r2 = 1, r3 = 2, r6 = 10, r7 = 20), then run execute, writeback and
  commit once. The first and third stations execute; writeback hands each result to the
  first busy, not-ready reorder-buffer entry, so the third instruction's result 30 lands
  in the second instruction's entry and commit writes it to r4. The second instruction
  is retired without having executed (its station is still busy, waiting), r5 is never
  written, and the third instruction's own entry stays not ready.
\<close>

theorem chain_commits_wrong_result:
  "t_instructions_issued chain_issued = 3
   \<and> t_registers chain_round ! 1 = 3
   \<and> t_registers chain_round ! 4 = 30
   \<and> t_registers chain_round ! 5 = 0
   \<and> t_instructions_completed chain_round = 2
   \<and> t_instructions_committed chain_round = 2
   \<and> t_rob_head chain_round = 2
   \<and> rs_busy (t_rs chain_round ! 1) \<and> \<not> rs_result_ready (t_rs chain_round ! 1)
   \<and> rs_qj (t_rs chain_round ! 1) = 1
   \<and> rob_busy (t_rob chain_round ! 2) \<and> \<not> rob_ready (t_rob chain_round ! 2)
   \<and> tomasulo_round chain_round = chain_round"
  by code_simp

section \<open>The in-order pipeline\<close>

lemma commit_inv: "pipeline_inv cpu \<Longrightarrow> pipeline_inv (stage_commit cpu)"
  by (simp add: pipeline_inv_def stage_commit_def Let_def)

lemma writeback_inv: "pipeline_inv cpu \<Longrightarrow> pipeline_inv (stage_writeback cpu)"
  by (simp add: pipeline_inv_def stage_writeback_def Let_def)

lemma memory_inv: "pipeline_inv cpu \<Longrightarrow> pipeline_inv (stage_memory cpu)"
  by (simp add: pipeline_inv_def stage_memory_def Let_def)

lemma execute_inv: "pipeline_inv cpu \<Longrightarrow> pipeline_inv (stage_execute cpu)"
  by (simp add: pipeline_inv_def stage_execute_def Let_def split: prod.splits)

lemma decode_inv: "pipeline_inv cpu \<Longrightarrow> pipeline_inv (stage_decode cpu)"
  by (simp add: pipeline_inv_def stage_decode_def Let_def)

lemma decode_stalls_busy:
  assumes "pipeline_inv cpu"
  shows "pr_stall (cpu_pipeline (stage_decode cpu) STAGE_FETCH)
         \<or> pr_type (cpu_pipeline (stage_decode cpu) STAGE_EXECUTE) = INST_NOP"
  using assms
  by (simp add: pipeline_inv_def stage_decode_def check_hazard_def stage_order_def Let_def)

lemma fetch_opcode_inv: "pipeline_inv cpu \<Longrightarrow> pipeline_inv (fetch_opcode cpu)"
  by (simp add: pipeline_inv_def fetch_opcode_def Let_def)

lemma branch_check_idle:
  "pr_type (cpu_pipeline cpu STAGE_EXECUTE) = INST_NOP \<Longrightarrow> fetch_branch_check cpu = cpu"
  by (simp add: fetch_branch_check_def is_jump_def)

lemma fetch_inv:
  assumes "pipeline_inv cpu"
    and "pr_stall (cpu_pipeline cpu STAGE_FETCH)
         \<or> pr_type (cpu_pipeline cpu STAGE_EXECUTE) = INST_NOP"
  shows "pipeline_inv (stage_fetch cpu)"
proof (cases "pr_stall (cpu_pipeline cpu STAGE_FETCH)")
  case True
  then show ?thesis using assms(1) by (simp add: stage_fetch_def pipeline_inv_def)
next
  case False
  then have "stage_fetch cpu = fetch_opcode cpu"
    using assms(2) by (simp add: stage_fetch_def branch_check_idle)
  then show ?thesis using assms(1) by (simp add: fetch_opcode_inv)
qed

lemma cpu_step_eq:
  "cpu_step cpu =
     (stage_fetch (stage_decode (stage_execute (stage_memory (stage_writeback
        (stage_commit cpu))))))
     \<lparr>cpu_cycles :=
        cpu_cycles (stage_fetch (stage_decode (stage_execute (stage_memory (stage_writeback
          (stage_commit cpu)))))) + 1\<rparr>"
  by (simp add: cpu_step_def Let_def)

lemma cpu_step_inv: "pipeline_inv cpu \<Longrightarrow> pipeline_inv (cpu_step cpu)"
proof -
  assume inv: "pipeline_inv cpu"
  let ?d = "stage_decode (stage_execute (stage_memory (stage_writeback (stage_commit cpu))))"
  have e: "pipeline_inv (stage_execute (stage_memory (stage_writeback (stage_commit cpu))))"
    by (intro execute_inv memory_inv writeback_inv commit_inv inv)
  have "pipeline_inv (stage_fetch ?d)"
    by (rule fetch_inv [OF decode_inv [OF e] decode_stalls_busy [OF e]])
  then show ?thesis
    by (simp add: cpu_step_eq pipeline_inv_def)
qed

lemma cpu_steps_inv: "pipeline_inv cpu \<Longrightarrow> pipeline_inv (cpu_steps n cpu)"
  by (induction n arbitrary: cpu) (simp_all add: cpu_step_inv)

lemma early_stages_frame:
  "cpu_pc (stage_commit cpu) = cpu_pc cpu"
  "cpu_pc (stage_writeback cpu) = cpu_pc cpu"
  "cpu_pc (stage_memory cpu) = cpu_pc cpu"
  "cpu_pc (stage_execute cpu) = cpu_pc cpu"
  "cpu_pc (stage_decode cpu) = cpu_pc cpu"
  "cpu_bubbles (stage_commit cpu) = cpu_bubbles cpu"
  "cpu_bubbles (stage_writeback cpu) = cpu_bubbles cpu"
  "cpu_bubbles (stage_memory cpu) = cpu_bubbles cpu"
  "cpu_bubbles (stage_execute cpu) = cpu_bubbles cpu"
  "cpu_bubbles (stage_decode cpu) = cpu_bubbles cpu"
  "cpu_registers (stage_commit cpu) = cpu_registers cpu"
  "cpu_registers (stage_memory cpu) = cpu_registers cpu"
  "cpu_registers (stage_execute cpu) = cpu_registers cpu"
  "cpu_registers (stage_decode cpu) = cpu_registers cpu"
  "cpu_pipeline (stage_commit cpu) STAGE_DECODE = cpu_pipeline cpu STAGE_DECODE"
  "cpu_pipeline (stage_writeback cpu) STAGE_DECODE = cpu_pipeline cpu STAGE_DECODE"
  "cpu_pipeline (stage_memory cpu) STAGE_DECODE = cpu_pipeline cpu STAGE_DECODE"
  by (simp_all add: stage_commit_def stage_writeback_def stage_memory_def stage_execute_def
      stage_decode_def Let_def split: prod.splits)

lemma fetch_frame:
  assumes "pr_stall (cpu_pipeline cpu STAGE_FETCH)
           \<or> pr_type (cpu_pipeline cpu STAGE_EXECUTE) = INST_NOP"
  shows "cpu_bubbles (stage_fetch cpu) = cpu_bubbles cpu"
    and "cpu_registers (stage_fetch cpu) = cpu_registers cpu"
  using assms
  by (auto simp add: stage_fetch_def branch_check_idle fetch_opcode_def Let_def)

lemma fetch_stalled: 
  "pr_stall (cpu_pipeline cpu STAGE_FETCH) \<Longrightarrow> cpu_pc (stage_fetch cpu) = cpu_pc cpu"
  by (simp add: stage_fetch_def)

lemma execute_keeps_type:
  "\<not> pr_bubble (cpu_pipeline cpu STAGE_DECODE) \<Longrightarrow>
     pr_type (cpu_pipeline (stage_execute cpu) STAGE_EXECUTE)
       = pr_type (cpu_pipeline cpu STAGE_DECODE)"
  by (simp add: stage_execute_def Let_def split: prod.splits)

lemma decode_stalls:
  assumes "pipeline_inv cpu" and "pr_type (cpu_pipeline cpu STAGE_EXECUTE) \<noteq> INST_NOP"
  shows "pr_stall (cpu_pipeline (stage_decode cpu) STAGE_FETCH)"
  using assms
  by (simp add: pipeline_inv_def stage_decode_def check_hazard_def stage_order_def Let_def)

lemma writeback_registers:
  assumes "pipeline_inv cpu" and "upper_registers_zero cpu"
  shows "upper_registers_zero (stage_writeback cpu)"
proof -
  have "tl (xs[0 := r]) = tl xs" for xs :: "u64 list" and r
    by (cases xs) simp_all
  then show ?thesis
    using assms
    by (simp add: pipeline_inv_def upper_registers_zero_def stage_writeback_def Let_def)
qed

lemma cpu_step_registers:
  assumes inv: "pipeline_inv cpu" and regs: "upper_registers_zero cpu"
  shows "upper_registers_zero (cpu_step cpu)"
proof -
  let ?c = "stage_commit cpu"
  let ?e = "stage_execute (stage_memory (stage_writeback ?c))"
  have "upper_registers_zero ?c"
    using regs by (simp add: upper_registers_zero_def early_stages_frame)
  then have w: "upper_registers_zero (stage_writeback ?c)"
    by (intro writeback_registers commit_inv inv)
  have e: "pipeline_inv ?e"
    by (intro execute_inv memory_inv writeback_inv commit_inv inv)
  have "cpu_registers (stage_fetch (stage_decode ?e)) = cpu_registers (stage_writeback ?c)"
    by (simp add: fetch_frame(2) [OF decode_stalls_busy [OF e]] early_stages_frame)
  then show ?thesis
    using w by (simp add: cpu_step_eq upper_registers_zero_def)
qed

lemma cpu_steps_registers:
  "pipeline_inv cpu \<Longrightarrow> upper_registers_zero cpu \<Longrightarrow> upper_registers_zero (cpu_steps n cpu)"
  by (induction n arbitrary: cpu) (simp_all add: cpu_step_inv cpu_step_registers)

lemma cpu_step_bubbles:
  assumes inv: "pipeline_inv cpu"
  shows "cpu_bubbles (cpu_step cpu) = cpu_bubbles cpu"
proof -
  let ?e = "stage_execute (stage_memory (stage_writeback (stage_commit cpu)))"
  have e: "pipeline_inv ?e"
    by (intro execute_inv memory_inv writeback_inv commit_inv inv)
  show ?thesis
    by (simp add: cpu_step_eq fetch_frame(1) [OF decode_stalls_busy [OF e]] early_stages_frame)
qed

lemma cpu_steps_bubbles:
  "pipeline_inv cpu \<Longrightarrow> cpu_bubbles (cpu_steps n cpu) = cpu_bubbles cpu"
  by (induction n arbitrary: cpu) (simp_all add: cpu_step_inv cpu_step_bubbles)

lemma busy_decode_holds_pc:
  assumes inv: "pipeline_inv cpu"
    and busy: "pr_type (cpu_pipeline cpu STAGE_DECODE) \<noteq> INST_NOP"
  shows "cpu_pc (cpu_step cpu) = cpu_pc cpu"
proof -
  let ?m = "stage_memory (stage_writeback (stage_commit cpu))"
  have m: "pipeline_inv ?m"
    by (intro memory_inv writeback_inv commit_inv inv)
  have d: "cpu_pipeline ?m STAGE_DECODE = cpu_pipeline cpu STAGE_DECODE"
    by (simp add: early_stages_frame)
  have "\<not> pr_bubble (cpu_pipeline ?m STAGE_DECODE)"
    using m by (simp add: pipeline_inv_def)
  then have "pr_type (cpu_pipeline (stage_execute ?m) STAGE_EXECUTE) \<noteq> INST_NOP"
    using busy d by (simp add: execute_keeps_type)
  then have "pr_stall (cpu_pipeline (stage_decode (stage_execute ?m)) STAGE_FETCH)"
    by (intro decode_stalls execute_inv m)
  then show ?thesis
    by (simp add: cpu_step_eq fetch_stalled early_stages_frame)
qed

lemma reset_inv:
  "pipeline_inv (cpu_reset now cpu)" "upper_registers_zero (cpu_reset now cpu)"
  by (simp_all add: pipeline_inv_def upper_registers_zero_def cpu_reset_def zero_register_def
      list_all_length)

lemma load_program_inv:
  "pipeline_inv cpu \<Longrightarrow> pipeline_inv (snd (cpu_load_program cpu program address))"
  "upper_registers_zero cpu \<Longrightarrow>
     upper_registers_zero (snd (cpu_load_program cpu program address))"
  by (simp_all add: pipeline_inv_def upper_registers_zero_def cpu_load_program_def)

lemma upper_register:
  assumes "upper_registers_zero cpu" and "0 < i" and "i < 16"
  shows "cpu_registers cpu ! i = 0"
proof -
  obtain r rs where rs: "cpu_registers cpu = r # rs" and len: "length rs = 15"
    using assms(1) by (cases "cpu_registers cpu") (simp_all add: upper_registers_zero_def)
  obtain j where j: "i = Suc j" using assms(2) by (cases i) simp_all
  then have "j < length rs" using assms(3) len by simp
  then show ?thesis
    using assms(1) rs j by (simp add: upper_registers_zero_def list_all_length)
qed

text \<open>
  From any reset processor and for any program, no run of the pipeline ever writes a
  register other than R0, and none ever charges a bubble.
\<close>

lemma run_after_reset:
  assumes "0 < i" and "i < 16"
  shows "cpu_registers (cpu_run (snd (cpu_load_program (cpu_reset now cpu) program address)) n) ! i
           = 0"
    and "cpu_bubbles (cpu_run (snd (cpu_load_program (cpu_reset now cpu) program address)) n) = 0"
proof -
  let ?s = "snd (cpu_load_program (cpu_reset now cpu) program address)"
  have inv: "pipeline_inv ?s" and regs: "upper_registers_zero ?s"
    by (intro load_program_inv reset_inv)+
  have "upper_registers_zero (cpu_run ?s n)"
    unfolding cpu_run_def by (intro cpu_steps_registers inv regs)
  then show "cpu_registers (cpu_run ?s n) ! i = 0"
    using assms by (rule upper_register)
  have "cpu_bubbles ?s = 0"
    by (simp add: cpu_load_program_def cpu_reset_def)
  then show "cpu_bubbles (cpu_run ?s n) = 0"
    unfolding cpu_run_def by (simp add: cpu_steps_bubbles [OF inv])
qed

lemma shifted_types:
  assumes "pipeline_inv cpu"
  shows "pr_type (cpu_pipeline (stage_execute (stage_memory (stage_writeback (stage_commit cpu))))
                    STAGE_EXECUTE) = pr_type (cpu_pipeline cpu STAGE_DECODE)"
    and "pr_type (cpu_pipeline (stage_execute (stage_memory (stage_writeback (stage_commit cpu))))
                    STAGE_MEMORY) = pr_type (cpu_pipeline cpu STAGE_EXECUTE)"
    and "pr_type (cpu_pipeline (stage_execute (stage_memory (stage_writeback (stage_commit cpu))))
                    STAGE_WRITEBACK) = pr_type (cpu_pipeline cpu STAGE_MEMORY)"
    and "pr_type (cpu_pipeline (stage_execute (stage_memory (stage_writeback (stage_commit cpu))))
                    STAGE_COMMIT) = pr_type (cpu_pipeline cpu STAGE_WRITEBACK)"
    and "\<not> pr_stall (cpu_pipeline (stage_execute (stage_memory (stage_writeback
                    (stage_commit cpu)))) STAGE_FETCH)"
  using assms
  by (simp_all add: pipeline_inv_def stage_commit_def stage_writeback_def stage_memory_def
      stage_execute_def Let_def split: prod.splits)

lemma decode_hazard_iff:
  assumes "pipeline_inv cpu" and "\<not> pr_stall (cpu_pipeline cpu STAGE_FETCH)"
  shows "pr_stall (cpu_pipeline (stage_decode cpu) STAGE_FETCH) \<longleftrightarrow>
           pr_type (cpu_pipeline cpu STAGE_EXECUTE) \<noteq> INST_NOP
           \<or> pr_type (cpu_pipeline cpu STAGE_MEMORY) \<noteq> INST_NOP
           \<or> pr_type (cpu_pipeline cpu STAGE_WRITEBACK) \<noteq> INST_NOP
           \<or> pr_type (cpu_pipeline cpu STAGE_COMMIT) \<noteq> INST_NOP"
    and "pr_type (cpu_pipeline (stage_decode cpu) STAGE_EXECUTE)
           = pr_type (cpu_pipeline cpu STAGE_EXECUTE)"
  using assms
  by (auto simp add: pipeline_inv_def stage_decode_def check_hazard_def stage_order_def Let_def)

lemma fetch_advances:
  assumes "\<not> pr_stall (cpu_pipeline cpu STAGE_FETCH)"
  shows "cpu_pc (stage_fetch cpu) = cpu_pc (fetch_branch_check cpu) + 1"
    and "pr_pc (cpu_pipeline (stage_fetch cpu) STAGE_FETCH) = cpu_pc (fetch_branch_check cpu)"
  using assms by (simp_all add: stage_fetch_def fetch_opcode_def Let_def)

lemma cpu_step_pc:
  assumes inv: "pipeline_inv cpu"
  shows "cpu_pc (cpu_step cpu) = (if pipeline_busy cpu then cpu_pc cpu else cpu_pc cpu + 1)"
proof -
  let ?e = "stage_execute (stage_memory (stage_writeback (stage_commit cpu)))"
  have e: "pipeline_inv ?e"
    by (intro execute_inv memory_inv writeback_inv commit_inv inv)
  note sh = shifted_types [OF inv]
  have stall: "pr_stall (cpu_pipeline (stage_decode ?e) STAGE_FETCH) \<longleftrightarrow> pipeline_busy cpu"
    by (simp add: decode_hazard_iff(1) [OF e sh(5)] sh(1-4) pipeline_busy_def)
  show ?thesis
  proof (cases "pipeline_busy cpu")
    case True
    then show ?thesis
      using stall by (simp add: cpu_step_eq fetch_stalled early_stages_frame)
  next
    case False
    then have ns: "\<not> pr_stall (cpu_pipeline (stage_decode ?e) STAGE_FETCH)"
      using stall by simp
    have "pr_type (cpu_pipeline (stage_decode ?e) STAGE_EXECUTE) = INST_NOP"
      using False by (simp add: decode_hazard_iff(2) [OF e sh(5)] sh(1) pipeline_busy_def)
    then have "fetch_branch_check (stage_decode ?e) = stage_decode ?e"
      by (rule branch_check_idle)
    then show ?thesis
      using False by (simp add: cpu_step_eq fetch_advances(1) [OF ns] early_stages_frame)
  qed
qed

lemma idle_stages:
  assumes "pipeline_inv cpu" and "\<not> pipeline_busy cpu"
  shows "cpu_memory (stage_execute (stage_memory (stage_writeback (stage_commit cpu))))
           = cpu_memory cpu"
    and "cpu_pipeline (stage_execute (stage_memory (stage_writeback (stage_commit cpu))))
           STAGE_FETCH = (cpu_pipeline cpu STAGE_FETCH)\<lparr>pr_stall := False\<rparr>"
    and "pr_type (cpu_pipeline (stage_execute (stage_memory (stage_writeback (stage_commit cpu))))
           STAGE_COMMIT) = INST_NOP"
  using assms
  by (simp_all add: pipeline_inv_def pipeline_busy_def stage_commit_def stage_writeback_def
      stage_memory_def stage_execute_def Let_def split: prod.splits)

lemma decode_passes:
  assumes "pipeline_inv cpu" and "\<not> pr_stall (cpu_pipeline (stage_decode cpu) STAGE_FETCH)"
  shows "pr_type (cpu_pipeline (stage_decode cpu) STAGE_DECODE)
           = pr_type (cpu_pipeline cpu STAGE_FETCH)"
    and "cpu_pipeline (stage_decode cpu) STAGE_MEMORY = cpu_pipeline cpu STAGE_MEMORY"
    and "cpu_pipeline (stage_decode cpu) STAGE_WRITEBACK = cpu_pipeline cpu STAGE_WRITEBACK"
    and "cpu_memory (stage_decode cpu) = cpu_memory cpu"
  using assms
  by (simp_all add: pipeline_inv_def stage_decode_def Let_def split: if_splits)

lemma fetch_opcode_effect:
  "cpu_pipeline (fetch_opcode cpu) s =
     (if s = STAGE_FETCH
      then (cpu_pipeline cpu STAGE_FETCH)
             \<lparr>pr_pc := cpu_pc cpu, pr_opcode := cpu_memory cpu (cpu_pc cpu),
              pr_cycle_entered := cpu_cycles cpu,
              pr_type := (if cpu_memory cpu (cpu_pc cpu) < 20
                          then type_of_opcode (cpu_memory cpu (cpu_pc cpu)) else INST_NOP)\<rparr>
      else cpu_pipeline cpu s)"
  "cpu_memory (fetch_opcode cpu) = cpu_memory cpu"
  by (simp_all add: fetch_opcode_def Let_def)

lemma idle_step:
  assumes inv: "pipeline_inv cpu" and idle: "\<not> pipeline_busy cpu"
  shows "pr_type (cpu_pipeline (cpu_step cpu) STAGE_DECODE)
           = pr_type (cpu_pipeline cpu STAGE_FETCH)"
    and "pr_type (cpu_pipeline (cpu_step cpu) STAGE_EXECUTE) = INST_NOP"
    and "pr_type (cpu_pipeline (cpu_step cpu) STAGE_MEMORY) = INST_NOP"
    and "pr_type (cpu_pipeline (cpu_step cpu) STAGE_WRITEBACK) = INST_NOP"
    and "pr_opcode (cpu_pipeline (cpu_step cpu) STAGE_FETCH) = cpu_memory cpu (cpu_pc cpu)"
    and "pr_type (cpu_pipeline (cpu_step cpu) STAGE_FETCH)
           = (if cpu_memory cpu (cpu_pc cpu) < 20
              then type_of_opcode (cpu_memory cpu (cpu_pc cpu)) else INST_NOP)"
    and "cpu_memory (cpu_step cpu) = cpu_memory cpu"
    and "pr_pc (cpu_pipeline (cpu_step cpu) STAGE_FETCH) = cpu_pc cpu"
proof -
  let ?e = "stage_execute (stage_memory (stage_writeback (stage_commit cpu)))"
  let ?d = "stage_decode ?e"
  have e: "pipeline_inv ?e"
    by (intro execute_inv memory_inv writeback_inv commit_inv inv)
  note sh = shifted_types [OF inv]
  note id = idle_stages [OF inv idle]
  have ns: "\<not> pr_stall (cpu_pipeline ?d STAGE_FETCH)"
    using idle by (simp add: decode_hazard_iff(1) [OF e sh(5)] sh(1-4) pipeline_busy_def)
  note dp = decode_passes [OF e ns]
  have ex: "pr_type (cpu_pipeline ?d STAGE_EXECUTE) = INST_NOP"
    using idle by (simp add: decode_hazard_iff(2) [OF e sh(5)] sh(1) pipeline_busy_def)
  then have f: "stage_fetch ?d = fetch_opcode ?d"
    using ns by (simp add: stage_fetch_def branch_check_idle)
  show "pr_type (cpu_pipeline (cpu_step cpu) STAGE_DECODE)
           = pr_type (cpu_pipeline cpu STAGE_FETCH)"
    by (simp add: cpu_step_eq f fetch_opcode_effect dp(1) id(2))
  show "pr_type (cpu_pipeline (cpu_step cpu) STAGE_EXECUTE) = INST_NOP"
    by (simp add: cpu_step_eq f fetch_opcode_effect ex)
  show "pr_type (cpu_pipeline (cpu_step cpu) STAGE_MEMORY) = INST_NOP"
    using idle by (simp add: cpu_step_eq f fetch_opcode_effect dp(2) sh(2) pipeline_busy_def)
  show "pr_type (cpu_pipeline (cpu_step cpu) STAGE_WRITEBACK) = INST_NOP"
    using idle by (simp add: cpu_step_eq f fetch_opcode_effect dp(3) sh(3) pipeline_busy_def)
  show "pr_opcode (cpu_pipeline (cpu_step cpu) STAGE_FETCH) = cpu_memory cpu (cpu_pc cpu)"
    by (simp add: cpu_step_eq f fetch_opcode_effect dp(4) id(1) early_stages_frame)
  show "pr_type (cpu_pipeline (cpu_step cpu) STAGE_FETCH)
           = (if cpu_memory cpu (cpu_pc cpu) < 20
              then type_of_opcode (cpu_memory cpu (cpu_pc cpu)) else INST_NOP)"
    by (simp add: cpu_step_eq f fetch_opcode_effect dp(4) id(1) early_stages_frame)
  show "cpu_memory (cpu_step cpu) = cpu_memory cpu"
    by (simp add: cpu_step_eq f fetch_opcode_effect dp(4) id(1))
  show "pr_pc (cpu_pipeline (cpu_step cpu) STAGE_FETCH) = cpu_pc cpu"
    by (simp add: cpu_step_eq f fetch_opcode_effect early_stages_frame)
qed

text \<open>
  What the flush of \<open>stage_fetch\<close> does where it runs: with Fetch not stalled, a jump in
  Execute and the stage's own outcome test (result not 0) against the prediction, every
  stage from Decode to Commit becomes a bubble holding a no-op, the program counter is
  redirected to the Execute register's result, from where the stage fetches, and the
  bubble counter goes up by 3. When the test agrees with the prediction nothing is flushed.
\<close>

lemma fetch_flush_effect:
  assumes "\<not> pr_stall (cpu_pipeline cpu STAGE_FETCH)"
    and "is_jump (pr_type (cpu_pipeline cpu STAGE_EXECUTE))"
    and "(pr_result (cpu_pipeline cpu STAGE_EXECUTE) \<noteq> 0)
           \<noteq> fst (bp_predict (cpu_bp cpu) (pr_pc (cpu_pipeline cpu STAGE_EXECUTE)))"
  shows "(\<forall>s. s \<noteq> STAGE_FETCH \<longrightarrow>
            pr_bubble (cpu_pipeline (stage_fetch cpu) s)
            \<and> pr_type (cpu_pipeline (stage_fetch cpu) s) = INST_NOP)
    \<and> cpu_pc (fetch_branch_check cpu) = pr_result (cpu_pipeline cpu STAGE_EXECUTE)
    \<and> stage_fetch cpu = fetch_opcode (fetch_branch_check cpu)
    \<and> pr_pc (cpu_pipeline (stage_fetch cpu) STAGE_FETCH)
         = pr_result (cpu_pipeline cpu STAGE_EXECUTE)
    \<and> cpu_pc (stage_fetch cpu) = pr_result (cpu_pipeline cpu STAGE_EXECUTE) + 1
    \<and> cpu_bubbles (stage_fetch cpu) = cpu_bubbles cpu + 3"
proof -
  have later: "s \<in> set (drop (Suc 0) stage_order) \<longleftrightarrow> s \<noteq> STAGE_FETCH" for s
    by (cases s) (simp_all add: stage_order_def)
  have pipe: "cpu_pipeline (fetch_branch_check cpu) s =
      (if s \<noteq> STAGE_FETCH then flush_stage (cpu_pipeline cpu s) else cpu_pipeline cpu s)" for s
    using assms(2,3) by (simp add: fetch_branch_check_def later Let_def split: prod.splits)
  have pc: "cpu_pc (fetch_branch_check cpu) = pr_result (cpu_pipeline cpu STAGE_EXECUTE)"
    using assms(2,3)
    by (simp add: fetch_branch_check_def later flush_stage_def Let_def split: prod.splits)
  have bubbles: "cpu_bubbles (fetch_branch_check cpu) = cpu_bubbles cpu + 3"
    using assms(2,3) by (simp add: fetch_branch_check_def Let_def split: prod.splits)
  have fetch: "stage_fetch cpu = fetch_opcode (fetch_branch_check cpu)"
    using assms(1) by (simp add: stage_fetch_def)
  have after: "cpu_pc (fetch_opcode c) = cpu_pc c + 1"
    "cpu_bubbles (fetch_opcode c) = cpu_bubbles c" for c
    by (simp_all add: fetch_opcode_def Let_def)
  have flushed: "pr_bubble (cpu_pipeline (stage_fetch cpu) s)
            \<and> pr_type (cpu_pipeline (stage_fetch cpu) s) = INST_NOP"
    if "s \<noteq> STAGE_FETCH" for s
    using that by (simp add: fetch fetch_opcode_effect(1) pipe flush_stage_def)
  have at: "pr_pc (cpu_pipeline (stage_fetch cpu) STAGE_FETCH)
         = pr_result (cpu_pipeline cpu STAGE_EXECUTE)"
    by (simp add: fetch fetch_opcode_effect(1) pc)
  show ?thesis
    using flushed at by (simp add: fetch after pc bubbles)
qed

lemma fetch_agreeing_keeps:
  assumes "\<not> pr_stall (cpu_pipeline cpu STAGE_FETCH)"
    and "is_jump (pr_type (cpu_pipeline cpu STAGE_EXECUTE))"
    and "(pr_result (cpu_pipeline cpu STAGE_EXECUTE) \<noteq> 0)
           = fst (bp_predict (cpu_bp cpu) (pr_pc (cpu_pipeline cpu STAGE_EXECUTE)))"
  shows "pr_bubble (cpu_pipeline (stage_fetch cpu) s) = pr_bubble (cpu_pipeline cpu s)"
    and "cpu_pc (stage_fetch cpu) = cpu_pc cpu + 1"
    and "cpu_bubbles (stage_fetch cpu) = cpu_bubbles cpu"
proof -
  have check: "cpu_pipeline (fetch_branch_check cpu) = cpu_pipeline cpu"
    "cpu_pc (fetch_branch_check cpu) = cpu_pc cpu"
    "cpu_bubbles (fetch_branch_check cpu) = cpu_bubbles cpu"
    using assms(2,3) by (simp_all add: fetch_branch_check_def Let_def split: prod.splits)
  have fetch: "stage_fetch cpu = fetch_opcode (fetch_branch_check cpu)"
    using assms(1) by (simp add: stage_fetch_def)
  show "pr_bubble (cpu_pipeline (stage_fetch cpu) s) = pr_bubble (cpu_pipeline cpu s)"
    by (simp add: fetch fetch_opcode_effect(1) check)
  show "cpu_pc (stage_fetch cpu) = cpu_pc cpu + 1"
    by (simp add: fetch check fetch_opcode_def Let_def)
  show "cpu_bubbles (stage_fetch cpu) = cpu_bubbles cpu"
    by (simp add: fetch check fetch_opcode_def Let_def)
qed

text \<open>
  In a run from reset the misprediction check is never reached with a jump to judge: when
  \<open>cpu_step\<close> calls \<open>stage_fetch\<close>, Fetch is stalled or Execute holds a no-op.
\<close>

lemma fetch_check_unreachable:
  assumes "pipeline_inv cpu"
  shows "pr_stall (cpu_pipeline (stages_before_fetch cpu) STAGE_FETCH)
         \<or> pr_type (cpu_pipeline (stages_before_fetch cpu) STAGE_EXECUTE) = INST_NOP"
  unfolding stages_before_fetch_def
  by (intro decode_stalls_busy execute_inv memory_inv writeback_inv commit_inv assms)

lemma before_fetch_inv: "pipeline_inv cpu \<Longrightarrow> pipeline_inv (stages_before_fetch cpu)"
  unfolding stages_before_fetch_def
  by (intro decode_inv execute_inv memory_inv writeback_inv commit_inv)

lemma before_fetch_frame:
  "cpu_pc (stages_before_fetch cpu) = cpu_pc cpu"
  "cpu_bubbles (stages_before_fetch cpu) = cpu_bubbles cpu"
  by (simp_all add: stages_before_fetch_def early_stages_frame)

lemma cpu_step_fetch:
  "cpu_step cpu =
     (stage_fetch (stages_before_fetch cpu))
       \<lparr>cpu_cycles := cpu_cycles (stage_fetch (stages_before_fetch cpu)) + 1\<rparr>"
  by (simp add: cpu_step_eq stages_before_fetch_def)

text \<open>No stage writes an immediate field, and none changes the predictor's policy.\<close>

lemma stage_immediates:
  assumes "immediates_zero cpu"
  shows "immediates_zero (stage_commit cpu)" and "immediates_zero (stage_writeback cpu)"
    and "immediates_zero (stage_memory cpu)" and "immediates_zero (stage_execute cpu)"
    and "immediates_zero (stage_decode cpu)" and "immediates_zero (stage_fetch cpu)"
  using assms
  by (simp_all add: immediates_zero_def stage_order_def stage_commit_def stage_writeback_def
      stage_memory_def stage_execute_def stage_decode_def stage_fetch_def fetch_opcode_def
      fetch_branch_check_def flush_stage_def Let_def split: prod.splits)

lemma cpu_step_immediates: "immediates_zero cpu \<Longrightarrow> immediates_zero (cpu_step cpu)"
proof -
  assume z: "immediates_zero cpu"
  have "immediates_zero (stage_fetch (stage_decode (stage_execute (stage_memory
          (stage_writeback (stage_commit cpu))))))"
    by (intro stage_immediates z)
  then show ?thesis
    by (simp add: cpu_step_eq immediates_zero_def)
qed

lemma bp_type_kept:
  "bp_type (snd (bp_predict bp pc)) = bp_type bp"
  "bp_type (bp_update bp pc taken predicted) = bp_type bp"
  by (cases "bp_type bp"; simp add: bp_predict_def bp_update_def Let_def)+

lemma stage_bp_type:
  "bp_type (cpu_bp (stage_commit cpu)) = bp_type (cpu_bp cpu)"
  "bp_type (cpu_bp (stage_writeback cpu)) = bp_type (cpu_bp cpu)"
  "bp_type (cpu_bp (stage_memory cpu)) = bp_type (cpu_bp cpu)"
  "bp_type (cpu_bp (stage_execute cpu)) = bp_type (cpu_bp cpu)"
  "bp_type (cpu_bp (stage_decode cpu)) = bp_type (cpu_bp cpu)"
  "bp_type (cpu_bp (stage_fetch cpu)) = bp_type (cpu_bp cpu)"
  by (simp_all add: stage_commit_def stage_writeback_def stage_memory_def stage_execute_def
      stage_decode_def stage_fetch_def fetch_opcode_def fetch_branch_check_def Let_def
      case_prod_beta bp_type_kept)

lemma cpu_step_bp_type: "bp_type (cpu_bp (cpu_step cpu)) = bp_type (cpu_bp cpu)"
  by (simp add: cpu_step_eq stage_bp_type)

lemma not_taken_predicts:
  "bp_type bp = PREDICTOR_ALWAYS_NOT_TAKEN \<Longrightarrow> \<not> fst (bp_predict bp pc)"
  by (simp add: bp_predict_def)

text \<open>
  The Execute register the fetch stage sees: the instruction that was in Decode when the
  cycle began, a \<open>jmp\<close> with its immediate as result.
\<close>

lemma decode_keeps_execute:
  "cpu_pipeline (stage_decode cpu) STAGE_EXECUTE = cpu_pipeline cpu STAGE_EXECUTE"
  by (simp add: stage_decode_def Let_def)

lemma execute_register:
  assumes "pipeline_inv cpu"
  shows "pr_type (cpu_pipeline (stages_before_fetch cpu) STAGE_EXECUTE)
           = pr_type (cpu_pipeline cpu STAGE_DECODE)"
    and "pr_pc (cpu_pipeline (stages_before_fetch cpu) STAGE_EXECUTE)
           = pr_pc (cpu_pipeline cpu STAGE_DECODE)"
    and "pr_type (cpu_pipeline cpu STAGE_DECODE) = INST_JMP \<Longrightarrow>
           pr_result (cpu_pipeline (stages_before_fetch cpu) STAGE_EXECUTE)
             = pr_immediate (cpu_pipeline cpu STAGE_DECODE)"
proof -
  let ?m = "stage_memory (stage_writeback (stage_commit cpu))"
  have d: "cpu_pipeline ?m STAGE_DECODE = cpu_pipeline cpu STAGE_DECODE"
    by (simp add: early_stages_frame)
  have "pipeline_inv ?m"
    by (intro memory_inv writeback_inv commit_inv assms)
  then have nb: "\<not> pr_bubble (cpu_pipeline ?m STAGE_DECODE)"
    by (simp add: pipeline_inv_def)
  have x: "pr_type (cpu_pipeline (stage_execute c) STAGE_EXECUTE)
             = pr_type (cpu_pipeline c STAGE_DECODE)"
    "pr_pc (cpu_pipeline (stage_execute c) STAGE_EXECUTE) = pr_pc (cpu_pipeline c STAGE_DECODE)"
    "pr_type (cpu_pipeline c STAGE_DECODE) = INST_JMP \<longrightarrow>
       pr_result (cpu_pipeline (stage_execute c) STAGE_EXECUTE)
         = pr_immediate (cpu_pipeline c STAGE_DECODE)"
    if "\<not> pr_bubble (cpu_pipeline c STAGE_DECODE)" for c
    using that
    by (simp_all add: stage_execute_def execute_result_def Let_def case_prod_beta)
  show "pr_type (cpu_pipeline (stages_before_fetch cpu) STAGE_EXECUTE)
           = pr_type (cpu_pipeline cpu STAGE_DECODE)"
    by (simp add: stages_before_fetch_def decode_keeps_execute x(1) [OF nb] d)
  show "pr_pc (cpu_pipeline (stages_before_fetch cpu) STAGE_EXECUTE)
           = pr_pc (cpu_pipeline cpu STAGE_DECODE)"
    by (simp add: stages_before_fetch_def decode_keeps_execute x(2) [OF nb] d)
  show "pr_result (cpu_pipeline (stages_before_fetch cpu) STAGE_EXECUTE)
             = pr_immediate (cpu_pipeline cpu STAGE_DECODE)"
    if "pr_type (cpu_pipeline cpu STAGE_DECODE) = INST_JMP"
    using that x(3) [OF nb] by (simp add: stages_before_fetch_def decode_keeps_execute d)
qed

lemma idle_step_decode_pc:
  assumes inv: "pipeline_inv cpu" and idle: "\<not> pipeline_busy cpu"
  shows "pr_pc (cpu_pipeline (cpu_step cpu) STAGE_DECODE) = pr_pc (cpu_pipeline cpu STAGE_FETCH)"
proof -
  let ?e = "stage_execute (stage_memory (stage_writeback (stage_commit cpu)))"
  let ?d = "stage_decode ?e"
  have e: "pipeline_inv ?e"
    by (intro execute_inv memory_inv writeback_inv commit_inv inv)
  note sh = shifted_types [OF inv]
  note id = idle_stages [OF inv idle]
  have ns: "\<not> pr_stall (cpu_pipeline ?d STAGE_FETCH)"
    using idle by (simp add: decode_hazard_iff(1) [OF e sh(5)] sh(1-4) pipeline_busy_def)
  have ex: "pr_type (cpu_pipeline ?d STAGE_EXECUTE) = INST_NOP"
    using idle by (simp add: decode_hazard_iff(2) [OF e sh(5)] sh(1) pipeline_busy_def)
  then have f: "stage_fetch ?d = fetch_opcode ?d"
    using ns by (simp add: stage_fetch_def branch_check_idle)
  have "pr_pc (cpu_pipeline ?d STAGE_DECODE) = pr_pc (cpu_pipeline ?e STAGE_FETCH)"
    using e ns by (simp add: pipeline_inv_def stage_decode_def Let_def split: if_splits)
  then show ?thesis
    by (simp add: cpu_step_eq f fetch_opcode_effect id(2))
qed

lemma jmp_cpu_facts:
  "pipeline_inv jmp_cpu" "\<not> pipeline_busy jmp_cpu" "cpu_pc jmp_cpu = 0x1000"
  "cpu_memory jmp_cpu 0x1000 = 0x0D" "cpu_pipeline jmp_cpu = (\<lambda>s. zero_register)"
  "immediates_zero jmp_cpu" "bp_type (cpu_bp jmp_cpu) = PREDICTOR_ALWAYS_NOT_TAKEN"
  "cpu_bubbles jmp_cpu = 0"
  by (simp_all add: jmp_cpu_def jmp_program_def cpu_load_program_def created_cpu_def
      not_taken_bp_def pipeline_inv_def pipeline_busy_def immediates_zero_def stage_order_def
      zero_register_def)

text \<open>
  Claim C2 fails on the code. The created processor, its predictor forced to
  always-not-taken, runs the program \<open>jmp; nop\<close> loaded at 0x1000. When the fetch stage of the
  third cycle starts, the Execute register holds the \<open>jmp\<close> fetched from 0x1000 with result
  0, its target: the jump is taken by the test of \<open>stage_execute\<close> (result not
  \<open>pc + 1\<close>), and the fetch-time prediction says not taken. The fetch stage is stalled by
  the hazard check of the decode stage and returns at once: no stage is marked as a bubble,
  the program counter stays at 0x1002 and is not set to the target, the bubble counter
  stays 0; it is 0 after any number of cycles. With the stall flag cleared the same state
  is not flushed either: the fetch stage reads the result 0 as not taken, in agreement
  with the prediction.
\<close>

theorem mispredicted_jump_is_not_flushed:
  "fst (cpu_load_program (created_cpu\<lparr>cpu_bp := not_taken_bp\<rparr>) jmp_program 0x1000) = 0
   \<and> cpu_steps 3 jmp_cpu =
       (stage_fetch jmp_in_execute)\<lparr>cpu_cycles := cpu_cycles (stage_fetch jmp_in_execute) + 1\<rparr>
   \<and> pr_type (cpu_pipeline jmp_in_execute STAGE_EXECUTE) = INST_JMP
   \<and> pr_pc (cpu_pipeline jmp_in_execute STAGE_EXECUTE) = 0x1000
   \<and> pr_result (cpu_pipeline jmp_in_execute STAGE_EXECUTE) = 0
   \<and> pr_result (cpu_pipeline jmp_in_execute STAGE_EXECUTE)
       \<noteq> pr_pc (cpu_pipeline jmp_in_execute STAGE_EXECUTE) + 1
   \<and> \<not> fst (bp_predict (cpu_bp jmp_in_execute)
              (pr_pc (cpu_pipeline jmp_in_execute STAGE_EXECUTE)))
   \<and> pr_stall (cpu_pipeline jmp_in_execute STAGE_FETCH)
   \<and> (\<forall>s. \<not> pr_bubble (cpu_pipeline (stage_fetch jmp_in_execute) s))
   \<and> cpu_pc (stage_fetch jmp_in_execute) = 0x1002
   \<and> cpu_bubbles (stage_fetch jmp_in_execute) = 0
   \<and> (\<forall>n. cpu_bubbles (cpu_run jmp_cpu n) = 0)
   \<and> (\<forall>s. \<not> pr_bubble (cpu_pipeline (stage_fetch jmp_in_execute_unstalled) s))
   \<and> cpu_pc (stage_fetch jmp_in_execute_unstalled) = 0x1003
   \<and> cpu_bubbles (stage_fetch jmp_in_execute_unstalled) = 0"
proof -
  let ?s0 = jmp_cpu
  let ?s1 = "cpu_step ?s0"
  let ?s2 = "cpu_step ?s1"
  let ?x = jmp_in_execute
  let ?u = jmp_in_execute_unstalled
  note f0 = jmp_cpu_facts
  have ok: "fst (cpu_load_program (created_cpu\<lparr>cpu_bp := not_taken_bp\<rparr>) jmp_program 0x1000)
              = 0"
    by (simp add: cpu_load_program_def created_cpu_def jmp_program_def)
  have inv1: "pipeline_inv ?s1" by (intro cpu_step_inv f0(1))
  have inv2: "pipeline_inv ?s2" by (intro cpu_step_inv inv1)
  have imm2: "immediates_zero ?s2" by (intro cpu_step_immediates f0(6))
  have bp2: "bp_type (cpu_bp ?s2) = PREDICTOR_ALWAYS_NOT_TAKEN"
    by (simp add: cpu_step_bp_type f0(7))
  have bub2: "cpu_bubbles ?s2 = 0"
    by (simp add: cpu_step_bubbles [OF inv1] cpu_step_bubbles [OF f0(1)] f0(8))
  have pc1: "cpu_pc ?s1 = 0x1001"
    using f0(2) by (simp add: cpu_step_pc [OF f0(1)] f0(3))
  note i1 = idle_step [OF f0(1) f0(2)]
  have jmp: "type_of_opcode 0x0D = INST_JMP"
    by (simp add: type_of_opcode_def instruction_types_def)
  have t1: "pr_type (cpu_pipeline ?s1 STAGE_FETCH) = INST_JMP"
    by (simp add: i1(6) f0(3) f0(4) jmp)
  have a1: "pr_pc (cpu_pipeline ?s1 STAGE_FETCH) = 0x1000"
    by (simp add: i1(8) f0(3))
  have d1: "pr_type (cpu_pipeline ?s1 STAGE_DECODE) = INST_NOP"
    by (simp add: i1(1) f0(5) zero_register_def)
  have quiet1: "\<not> pipeline_busy ?s1"
    by (simp add: pipeline_busy_def d1 i1(2-4))
  note i2 = idle_step [OF inv1 quiet1]
  have pc2: "cpu_pc ?s2 = 0x1002"
    using quiet1 by (simp add: cpu_step_pc [OF inv1] pc1)
  have t2: "pr_type (cpu_pipeline ?s2 STAGE_DECODE) = INST_JMP"
    by (simp add: i2(1) t1)
  have a2: "pr_pc (cpu_pipeline ?s2 STAGE_DECODE) = 0x1000"
    by (simp add: idle_step_decode_pc [OF inv1 quiet1] a1)
  have m2: "pr_immediate (cpu_pipeline ?s2 STAGE_DECODE) = 0"
    using imm2 by (simp add: immediates_zero_def stage_order_def)
  have two: "cpu_steps 2 ?s0 = ?s2" and three: "cpu_steps 3 ?s0 = cpu_step ?s2"
    by (simp_all add: numeral_2_eq_2 numeral_3_eq_3)
  have x: "?x = stages_before_fetch ?s2"
    by (simp add: jmp_in_execute_def two)
  have step: "cpu_steps 3 ?s0 = (stage_fetch ?x)\<lparr>cpu_cycles := cpu_cycles (stage_fetch ?x) + 1\<rparr>"
    unfolding three x by (rule cpu_step_fetch)
  have xt: "pr_type (cpu_pipeline ?x STAGE_EXECUTE) = INST_JMP"
    and xa: "pr_pc (cpu_pipeline ?x STAGE_EXECUTE) = 0x1000"
    and xr: "pr_result (cpu_pipeline ?x STAGE_EXECUTE) = 0"
    unfolding x using execute_register [OF inv2] t2 a2 m2 by simp_all
  have invx: "pipeline_inv ?x"
    unfolding x by (rule before_fetch_inv [OF inv2])
  have "bp_type (cpu_bp ?x) = PREDICTOR_ALWAYS_NOT_TAKEN"
    unfolding x by (simp add: stages_before_fetch_def stage_bp_type bp2)
  then have np: "\<not> fst (bp_predict (cpu_bp ?x) pc)" for pc
    by (rule not_taken_predicts)
  have stall: "pr_stall (cpu_pipeline ?x STAGE_FETCH)"
    using fetch_check_unreachable [OF inv2] xt unfolding x by simp
  have fx: "stage_fetch ?x = ?x\<lparr>cpu_stalls := cpu_stalls ?x + 1\<rparr>"
    using stall by (simp add: stage_fetch_def)
  have nbx: "\<not> pr_bubble (cpu_pipeline ?x s)" for s
    using invx by (simp add: pipeline_inv_def)
  have pcx: "cpu_pc ?x = 0x1002" and bubx: "cpu_bubbles ?x = 0"
    unfolding x by (simp_all add: before_fetch_frame pc2 bub2)
  have run: "cpu_bubbles (cpu_run ?s0 n) = 0" for n
    by (simp add: cpu_run_def cpu_steps_bubbles [OF f0(1)] f0(8))
  have u: "cpu_pipeline ?u STAGE_EXECUTE = cpu_pipeline ?x STAGE_EXECUTE"
    "\<not> pr_stall (cpu_pipeline ?u STAGE_FETCH)" "cpu_bp ?u = cpu_bp ?x"
    "cpu_pc ?u = cpu_pc ?x" "cpu_bubbles ?u = cpu_bubbles ?x"
    "pr_bubble (cpu_pipeline ?u s) = pr_bubble (cpu_pipeline ?x s)" for s
    by (simp_all add: jmp_in_execute_unstalled_def)
  have uj: "is_jump (pr_type (cpu_pipeline ?u STAGE_EXECUTE))"
    by (simp add: u(1) xt is_jump_def)
  have ua: "(pr_result (cpu_pipeline ?u STAGE_EXECUTE) \<noteq> 0)
              = fst (bp_predict (cpu_bp ?u) (pr_pc (cpu_pipeline ?u STAGE_EXECUTE)))"
    by (simp add: u(1,3) xr np)
  note k = fetch_agreeing_keeps [OF u(2) uj ua]
  have nbu: "\<not> pr_bubble (cpu_pipeline (stage_fetch ?u) s)" for s
    by (simp add: k(1) u(6) nbx)
  have pcu: "cpu_pc (stage_fetch ?u) = 0x1003"
    by (simp add: k(2) u(4) pcx)
  have bubu: "cpu_bubbles (stage_fetch ?u) = 0"
    by (simp add: k(3) u(5) bubx)
  have r1: "pr_result (cpu_pipeline ?x STAGE_EXECUTE) \<noteq> pr_pc (cpu_pipeline ?x STAGE_EXECUTE) + 1"
    by (simp add: xr xa)
  have nbf: "\<not> pr_bubble (cpu_pipeline (stage_fetch ?x) s)" for s
    by (simp add: fx nbx)
  have pcf: "cpu_pc (stage_fetch ?x) = 0x1002" and bubf: "cpu_bubbles (stage_fetch ?x) = 0"
    by (simp_all add: fx pcx bubx)
  from ok step xt xa xr r1 np stall nbf pcf bubf run nbu pcu bubu
  show ?thesis by (intro conjI allI) (assumption | simp)+
qed

lemma created_cpu_is_reset: "cpu_reset 0 created_cpu = created_cpu"
  by (simp add: cpu_reset_def created_cpu_def)

text \<open>
  Claim C3 fails on the code. With \<open>mov r0, 10; add r1, r0, r0\<close> loaded at 0x1000 into the
  created processor, in the byte layout of the tests or in that of the codec, R1 is 0 after
  any number of cycles, not 20. The fetch stage takes one byte per cycle as an opcode and
  no stage fills a destination field, so every writeback goes to R0.
\<close>

theorem hazard_program_leaves_r1_zero:
  "fst (cpu_load_program created_cpu hazard_program 0x1000) = 0
   \<and> (\<forall>n. cpu_registers
              (cpu_run (snd (cpu_load_program created_cpu hazard_program 0x1000)) n) ! 1 = 0)
   \<and> cpu_registers
         (cpu_run (snd (cpu_load_program created_cpu hazard_program 0x1000)) 100) ! 1 \<noteq> 20
   \<and> (\<forall>n. cpu_registers
              (cpu_run (snd (cpu_load_program created_cpu hazard_program_encoded 0x1000)) n) ! 1
            = 0)"
proof -
  have ok: "fst (cpu_load_program created_cpu hazard_program 0x1000) = 0"
    by (simp add: cpu_load_program_def created_cpu_def hazard_program_def)
  have zero: "cpu_registers (cpu_run (snd (cpu_load_program created_cpu program 0x1000)) n) ! 1
                = 0" for program n
    using run_after_reset(1) [of 1 0 created_cpu program "0x1000" n]
    by (simp add: created_cpu_is_reset)
  show ?thesis
    using ok zero by simp
qed

text \<open>
  The same holds of the program of the repository's own integration test, which asserts
  that R2 is 30 after 100 cycles.
\<close>

lemma integration_program_leaves_r2_zero:
  "cpu_registers (cpu_run (snd (cpu_load_program created_cpu integration_program 0x1000)) 100) ! 2
     = 0"
  using run_after_reset(1) [of 2 0 created_cpu integration_program "0x1000" 100]
  by (simp add: created_cpu_is_reset)






end
